theory Spec2Isabelle
  imports Complex_Main
begin

section \<open>Python numerics used by app.py\<close>

text \<open>
  Python integers are \<^typ>\<open>int\<close>. Python floats are idealised as real numbers, except in
  the slice loop \<open>slice_crops_fl\<close>, where the pixel rows depend on the rounding and the
  operations are rounded to double precision.
  \<open>int(x)\<close> on a float truncates toward zero; \<open>round(x)\<close> on a float rounds to the
  nearest integer, ties going to the even neighbour.
\<close>

definition py_int :: "real \<Rightarrow> int" where
  "py_int x = (if 0 \<le> x then \<lfloor>x\<rfloor> else \<lceil>x\<rceil>)"

definition py_round :: "real \<Rightarrow> int" where
  "py_round x =
     (let f = \<lfloor>x\<rfloor>; d = x - of_int f
      in if d < 1 / 2 then f
         else if 1 / 2 < d then f + 1
         else if even f then f else f + 1)"

datatype error = ZeroDivisionError

text \<open>Basic facts about truncation and rounding.\<close>

lemma py_int_nonneg: "0 \<le> x \<Longrightarrow> py_int x = \<lfloor>x\<rfloor>"
  by (simp add: py_int_def)

lemma py_int_mono_nonneg: "0 \<le> x \<Longrightarrow> x \<le> y \<Longrightarrow> py_int x \<le> py_int y"
  by (simp add: py_int_nonneg floor_mono)

lemma py_int_le: "x \<le> of_int n \<Longrightarrow> py_int x \<le> n"
  by (simp add: py_int_def floor_le_iff ceiling_le_iff)

lemma py_int_ge_pos: "0 < n \<Longrightarrow> n \<le> py_int x \<Longrightarrow> of_int (py_int x) \<le> x \<and> 0 < x"
  by (auto simp: py_int_def split: if_splits) linarith+

lemma py_round_near: "\<bar>of_int (py_round x) - x\<bar> \<le> 1 / 2"
  unfolding py_round_def Let_def by (auto; linarith)

section \<open>Size estimator (app.py, estimate_mb)\<close>

definition estimate_mb :: "int \<Rightarrow> int \<Rightarrow> int \<Rightarrow> real \<Rightarrow> real" where
  "estimate_mb width_px height_px num_pages comp_f =
     (let total_pixels = width_px * height_px;
          raw_bytes = total_pixels * 3;
          est_bytes = of_int raw_bytes * comp_f;
          overhead = num_pages * 60000
      in (est_bytes + of_int overhead) / 1000000)"

section \<open>Slice planning (app.py, export branch, ranges construction)\<close>

text \<open>
  The loop \<open>for y in cuts: ranges.append((start, y)); start = y\<close> followed by
  \<open>ranges.append((start, 1.0))\<close>, with \<open>start\<close> as the loop-carried variable.
\<close>

fun ranges_from :: "real \<Rightarrow> real list \<Rightarrow> (real \<times> real) list" where
  "ranges_from start [] = [(start, 1)]"
| "ranges_from start (y # ys) = (start, y) # ranges_from y ys"

definition plan_slices :: "real list \<Rightarrow> (real \<times> real) list" where
  "plan_slices cuts_y =
     (let cuts = sort (filter (\<lambda>y. 0 < y \<and> y < 1) cuts_y)
      in ranges_from 0 cuts)"

section \<open>Click-to-cut mapping (app.py, click handler)\<close>

text \<open>
  The editing state kept in \<open>st.session_state\<close>: the cut fractions and the last click
  seen. The preview raster has size \<open>W \<times> H\<close>; it is shown \<open>display_width\<close> pixels wide.
\<close>

record session =
  cuts_y :: "real list"
  last_click :: "(int \<times> int) option"

definition preview_geometry :: "int \<Rightarrow> int \<Rightarrow> error + (int \<times> real \<times> int)" where
  "preview_geometry W H =
     (let display_width = min 1600 W
      in if W = 0 then Inl ZeroDivisionError
         else (let scale = of_int display_width / of_int W;
                   display_height = py_int (of_int H * scale)
               in Inr (display_width, scale, display_height)))"

definition map_click :: "int \<Rightarrow> real \<Rightarrow> int \<Rightarrow> error + (int \<times> real)" where
  "map_click click_y scale H =
     (if scale = 0 then Inl ZeroDivisionError
      else (let y_disp = click_y;
                y_orig = py_round (of_int y_disp / scale)
            in if H = 0 then Inl ZeroDivisionError
               else Inr (y_orig, of_int y_orig / of_int H)))"

definition keep_cut :: "int \<Rightarrow> real list \<Rightarrow> real \<Rightarrow> real list" where
  "keep_cut display_height filtered c =
     (if filtered = [] \<or> \<bar>c * of_int display_height - last filtered * of_int display_height\<bar> > 12
      then filtered @ [c] else filtered)"

definition debounce :: "int \<Rightarrow> real list \<Rightarrow> real list" where
  "debounce display_height cuts = foldl (keep_cut display_height) [] cuts"

definition merge_cut :: "int \<Rightarrow> real list \<Rightarrow> real \<Rightarrow> real list" where
  "merge_cut display_height before y_frac = debounce display_height (sort (before @ [y_frac]))"

definition on_click :: "real \<Rightarrow> int \<Rightarrow> int \<Rightarrow> session \<Rightarrow> int \<times> int \<Rightarrow> error + session" where
  "on_click scale display_height H st click =
     (if last_click st = Some click then Inr st
      else (let st1 = st\<lparr>last_click := Some click\<rparr>
            in case map_click (snd click) scale H of
                 Inl e \<Rightarrow> Inl e
               | Inr (y_orig, y_frac) \<Rightarrow>
                   if 0 < y_orig \<and> y_orig < H
                   then Inr (st1\<lparr>cuts_y := merge_cut display_height (cuts_y st1) y_frac\<rparr>)
                   else Inr st1))"

text \<open>
  The greedy pass of the click handler, as a recursion on the cuts still to be examined;
  \<open>p\<close> is the cut kept last (\<open>filtered[-1]\<close>).
\<close>

fun kept_after :: "int \<Rightarrow> real \<Rightarrow> real list \<Rightarrow> real list" where
  "kept_after dh p [] = []"
| "kept_after dh p (x # xs) =
     (if \<bar>x * of_int dh - p * of_int dh\<bar> > 12 then x # kept_after dh x xs else kept_after dh p xs)"

section \<open>Export: cropping the raster (app.py, export_with_dpi, slice loop)\<close>

text \<open>
  A crop is the pair of pixel rows \<open>(y0_px, y1_px)\<close> handed to \<open>export_img.crop\<close>; it
  covers the rows from \<open>y0_px\<close> up to, not including, \<open>y1_px\<close>. A range whose height
  in pixels, as a real number, is below 2 is skipped by \<open>continue\<close>. In \<open>slice_crops\<close>
  the products are exact; \<open>slice_crops_fl\<close> further down takes them in double precision.
\<close>

fun slice_crops :: "int \<Rightarrow> (real \<times> real) list \<Rightarrow> (int \<times> int) list" where
  "slice_crops export_H [] = []"
| "slice_crops export_H ((y0, y1) # ranges) =
     (if (y1 - y0) * of_int export_H < 2 then slice_crops export_H ranges
      else (let y0_px = py_int (y0 * of_int export_H);
                y1_px = py_int (y1 * of_int export_H)
            in (y0_px, y1_px) # slice_crops export_H ranges))"

text \<open>Two crops do not overlap when the first ends at or before the row the second starts at.\<close>

definition crop_before :: "int \<times> int \<Rightarrow> int \<times> int \<Rightarrow> bool" where
  "crop_before c c' = (snd c \<le> fst c')"

text \<open>
  Double precision. A Python float is an IEEE 754 binary64 number: a real of the form
  \<open>m * 2 ^ k\<close> with \<open>\<bar>m\<bar> < 2 ^ 53\<close> and \<open>k \<ge> - 1074\<close>. Every float operation
  returns the exact result rounded to the nearest such number, ties going to the even
  significand: \<open>rn\<close>. The unit in the last place of \<open>x\<close> is \<open>2 ^ (e - 52)\<close> for
  \<open>2 ^ e \<le> \<bar>x\<bar> < 2 ^ (e + 1)\<close>, with \<open>e\<close> not below \<open>- 1022\<close> (the subnormal range).
  Overflow is not modelled: the products below stay under the raster height.
  \<open>fl_of_int\<close> is the conversion of a Python integer in a mixed product, \<open>fl_mul\<close> and
  \<open>fl_sub\<close> are \<open>*\<close> and \<open>-\<close> on floats.
\<close>

definition rn :: "real \<Rightarrow> real" where
  "rn x =
     (if x = 0 then 0
      else (let ulp = 2 powi (max (- 1022) \<lfloor>log 2 \<bar>x\<bar>\<rfloor> - 52)
            in of_int (py_round (x / ulp)) * ulp))"

definition fl_of_int :: "int \<Rightarrow> real" where
  "fl_of_int n = rn (of_int n)"

definition fl_mul :: "real \<Rightarrow> real \<Rightarrow> real" where
  "fl_mul x y = rn (x * y)"

definition fl_sub :: "real \<Rightarrow> real \<Rightarrow> real" where
  "fl_sub x y = rn (x - y)"

text \<open>
  The slice loop as Python runs it: \<open>(y1 - y0) * export_H\<close>, \<open>y0 * export_H\<close> and
  \<open>y1 * export_H\<close> are float operations, so the rows and the test depend on the
  rounding. \<open>slice_crops\<close> above is the same loop over exact products.
\<close>

fun slice_crops_fl :: "int \<Rightarrow> (real \<times> real) list \<Rightarrow> (int \<times> int) list" where
  "slice_crops_fl export_H [] = []"
| "slice_crops_fl export_H ((y0, y1) # ranges) =
     (if fl_mul (fl_sub y1 y0) (fl_of_int export_H) < 2 then slice_crops_fl export_H ranges
      else (let y0_px = py_int (fl_mul y0 (fl_of_int export_H));
                y1_px = py_int (fl_mul y1 (fl_of_int export_H))
            in (y0_px, y1_px) # slice_crops_fl export_H ranges))"

section \<open>Export at a given DPI (app.py, export_with_dpi)\<close>

text \<open>
  The pixel ceiling. \<open>page_w_pt\<close> and \<open>page_h_pt\<close> are the page size in points;
  \<open>x ** 0.5\<close> is the square root. The result is the value of \<open>dpi_value\<close> after the
  \<open>if total_export_px > max_export_pixels\<close> block.
\<close>

definition effective_dpi :: "real \<Rightarrow> real \<Rightarrow> int \<Rightarrow> int" where
  "effective_dpi page_w_pt page_h_pt dpi_value =
     (let export_w_px = py_int (page_w_pt * of_int dpi_value / 72);
          export_h_px = py_int (page_h_pt * of_int dpi_value / 72);
          max_export_pixels = 250000000;
          total_export_px = export_w_px * export_h_px
      in if total_export_px > max_export_pixels
         then (let s = sqrt (of_int max_export_pixels / of_int total_export_px)
               in max 72 (py_int (of_int dpi_value * s)))
         else dpi_value)"

text \<open>
  The raster that is cropped. \<open>base_img\<close> is the size of the image that
  \<open>render_page_image(pdf_bytes, dpi=base_dpi, max_pixels=None)\<close> returns, which is the
  size of the pixmap the PDF rasteriser produces at \<open>base_dpi\<close>; it is resized when the
  export DPI differs from \<open>base_dpi\<close>.
\<close>

definition export_image :: "int \<times> int \<Rightarrow> int \<Rightarrow> int \<Rightarrow> error + (int \<times> int)" where
  "export_image base_img base_dpi dpi_value =
     (if dpi_value \<noteq> base_dpi
      then (if base_dpi = 0 then Inl ZeroDivisionError
            else (let factor = of_int dpi_value / of_int base_dpi;
                      new_w = max 1 (py_int (of_int (fst base_img) * factor));
                      new_h = max 1 (py_int (of_int (snd base_img) * factor))
                  in Inr (new_w, new_h)))
      else Inr base_img)"

text \<open>
  The output document, as the list of its page sizes in points; a slice is the size
  \<open>(crop.width, crop.height)\<close> of a cropped image. The encoded image bytes are produced
  by the image and PDF libraries and are not modelled.
\<close>

definition build_output_pdf_from_slices :: "(int \<times> int) list \<Rightarrow> real \<Rightarrow> (real \<times> real) list" where
  "build_output_pdf_from_slices slices px_to_pt =
     map (\<lambda>(crop_width, crop_height).
            (of_int crop_width * px_to_pt, of_int crop_height * px_to_pt)) slices"

record export_out =
  dpi_used :: int
  export_size :: "int \<times> int"
  crops :: "(int \<times> int) list"
  pages_pt :: "(real \<times> real) list"

text \<open>
  \<open>export_with_dpi\<close>, with the variables of the enclosing scope as parameters. Its
  argument \<open>jpg_q\<close> and the image format only choose the encoding of each crop, so
  they do not appear; \<open>dpi_request\<close> is the argument \<open>dpi_value\<close> as passed in.
\<close>

definition export_with_dpi ::
  "real \<Rightarrow> real \<Rightarrow> int \<Rightarrow> int \<times> int \<Rightarrow> (real \<times> real) list \<Rightarrow> int \<Rightarrow> error + export_out" where
  "export_with_dpi page_w_pt page_h_pt base_dpi base_img ranges dpi_request =
     (let dpi_value = effective_dpi page_w_pt page_h_pt dpi_request
      in case export_image base_img base_dpi dpi_value of
           Inl e \<Rightarrow> Inl e
         | Inr (export_W, export_H) \<Rightarrow>
             (let rows = slice_crops export_H ranges;
                  slices = map (\<lambda>(y0_px, y1_px). (export_W, y1_px - y0_px)) rows
              in if dpi_value = 0 then Inl ZeroDivisionError
                 else (let px_to_pt = 72 / of_int dpi_value
                       in Inr \<lparr>dpi_used = dpi_value, export_size = (export_W, export_H),
                               crops = rows,
                               pages_pt = build_output_pdf_from_slices slices px_to_pt\<rparr>)))"

text \<open>The pixel count \<open>total_export_px\<close> that export_with_dpi compares with the ceiling.\<close>

definition total_export_px :: "real \<Rightarrow> real \<Rightarrow> int \<Rightarrow> int" where
  "total_export_px page_w_pt page_h_pt dpi_value =
     py_int (page_w_pt * of_int dpi_value / 72) * py_int (page_h_pt * of_int dpi_value / 72)"

section \<open>Size-constrained export (app.py, Gradescope budget loop)\<close>

text \<open>
  The presets: label, DPI, compression estimate, JPEG quality. The size-constrained
  search runs only for the label that starts with \<open>Gradescope\<close>.
\<close>

definition QUALITY_PRESETS :: "(string \<times> int \<times> real \<times> int) list" where
  "QUALITY_PRESETS =
     [(''Low (120 DPI)'', 120, 0.20, 70),
      (''Normal (170 DPI)'', 170, 0.28, 80),
      (''High (220 DPI)'', 220, 0.38, 88),
      (''Native (300 DPI)'', 300, 0.55, 95),
      (''Gradescope (Dynamic, 100MB)'', 220, 0.38, 80)]"

text \<open>
  The state of the loop: the loop variables of app.py, the byte length of
  \<open>out_bytes\<close> (the encoded document itself comes from the image and PDF libraries),
  and \<open>calls\<close>, the arguments of every \<open>export_with_dpi\<close> call so far, in order.
  \<open>export_len dpi_value jpg_q\<close> is the byte length of what
  \<open>export_with_dpi(dpi_value, jpg_q)\<close> returns for the document being exported.
\<close>

record search =
  dpi_try :: int
  jpg_q_try :: int
  last_dpi :: "int option"
  last_q :: "int option"
  out_bytes :: nat
  calls :: "(int \<times> int) list"

text \<open>The two assignments \<open>dpi_try = max(10, int(dpi_try * 0.80))\<close> and
  \<open>jpg_q_try = max(30, jpg_q_try - 10)\<close>.\<close>

definition next_dpi :: "int \<Rightarrow> int" where
  "next_dpi d = max 10 (py_int (of_int d * 0.80))"

definition next_q :: "int \<Rightarrow> int" where
  "next_q q = max 30 (q - 10)"

text \<open>The loop test \<open>len(out_bytes) / 1_000_000 > target_mb\<close> and the stall test
  \<open>dpi_try == last_dpi and jpg_q_try == last_q\<close>.\<close>

definition exceeds_target :: "nat \<Rightarrow> bool" where
  "exceeds_target len = (let target_mb = 100.0 in of_nat len / 1000000 > (target_mb :: real))"

definition over_target :: "search \<Rightarrow> bool" where
  "over_target s = exceeds_target (out_bytes s)"

definition stalled :: "search \<Rightarrow> bool" where
  "stalled s = (Some (dpi_try s) = last_dpi s \<and> Some (jpg_q_try s) = last_q s)"

text \<open>One pass through the loop body after the stall test.\<close>

definition retry :: "(int \<Rightarrow> int \<Rightarrow> nat) \<Rightarrow> search \<Rightarrow> search" where
  "retry export_len s =
     (let d = next_dpi (dpi_try s); q = next_q (jpg_q_try s)
      in \<lparr>dpi_try = d, jpg_q_try = q,
          last_dpi = Some (dpi_try s), last_q = Some (jpg_q_try s),
          out_bytes = export_len d q, calls = calls s @ [(d, q)]\<rparr>)"

lemma next_dpi_floor: "d \<le> 10 \<Longrightarrow> next_dpi d = 10"
proof -
  assume "d \<le> 10"
  then have "(of_int d :: real) * 0.80 \<le> of_int 10" by simp
  then have "py_int (of_int d * 0.80) \<le> 10" by (rule py_int_le)
  then show ?thesis by (simp add: next_dpi_def)
qed

lemma next_dpi_less: "10 < d \<Longrightarrow> 10 \<le> next_dpi d \<and> next_dpi d < d"
proof -
  assume d: "10 < d"
  then have "0 \<le> (of_int d :: real) * 0.80" by simp
  then have "py_int (of_int d * 0.80) = \<lfloor>of_int d * 0.80 :: real\<rfloor>" by (rule py_int_nonneg)
  moreover have "\<lfloor>of_int d * 0.80 :: real\<rfloor> < d" using d by (simp add: floor_less_iff)
  ultimately show ?thesis using d by (simp add: next_dpi_def)
qed

text \<open>The distance of the loop variables from their floors, for termination.\<close>

definition dist_dpi :: "int \<Rightarrow> nat" where
  "dist_dpi d = (if d < 10 then 1 else nat (d - 10))"

definition dist_q :: "int \<Rightarrow> nat" where
  "dist_q q = (if q < 30 then 1 else nat (q - 30))"

lemma dist_dpi_next:
  shows "dist_dpi (next_dpi d) \<le> dist_dpi d"
    and "next_dpi d \<noteq> d \<Longrightarrow> dist_dpi (next_dpi d) < dist_dpi d"
proof -
  have "dist_dpi (next_dpi d) \<le> dist_dpi d \<and> (next_dpi d \<noteq> d \<longrightarrow> dist_dpi (next_dpi d) < dist_dpi d)"
  proof (cases "d \<le> 10")
    case True
    then have "next_dpi d = 10" by (rule next_dpi_floor)
    then show ?thesis using True by (auto simp: dist_dpi_def)
  next
    case False
    then have "10 \<le> next_dpi d \<and> next_dpi d < d" by (intro next_dpi_less) simp
    then show ?thesis using False by (auto simp: dist_dpi_def)
  qed
  then show "dist_dpi (next_dpi d) \<le> dist_dpi d"
    and "next_dpi d \<noteq> d \<Longrightarrow> dist_dpi (next_dpi d) < dist_dpi d" by blast+
qed

lemma dist_q_next: "dist_q (next_q q) \<le> dist_q q" "next_q q \<noteq> q \<Longrightarrow> dist_q (next_q q) < dist_q q"
  by (auto simp: dist_q_def next_q_def)

definition search_measure :: "search \<Rightarrow> nat" where
  "search_measure s =
     2 * (dist_dpi (dpi_try s) + dist_q (jpg_q_try s)) + (if stalled s then 0 else 1)"

lemma retry_decreases: "\<not> stalled s \<Longrightarrow> search_measure (retry export_len s) < search_measure s"
proof -
  assume ns: "\<not> stalled s"
  let ?d = "dpi_try s" and ?q = "jpg_q_try s"
  show ?thesis
  proof (cases "next_dpi ?d = ?d \<and> next_q ?q = ?q")
    case True
    then have "stalled (retry export_len s)" by (simp add: stalled_def retry_def Let_def)
    then show ?thesis using True ns by (simp add: search_measure_def retry_def Let_def)
  next
    case False
    then have "dist_dpi (next_dpi ?d) + dist_q (next_q ?q) < dist_dpi ?d + dist_q ?q"
      using dist_dpi_next [of ?d] dist_q_next [of ?q] by linarith
    then show ?thesis using ns by (simp add: search_measure_def retry_def Let_def)
  qed
qed

function budget_loop :: "(int \<Rightarrow> int \<Rightarrow> nat) \<Rightarrow> search \<Rightarrow> search" where
  "budget_loop export_len s =
     (if over_target s
      then (if stalled s then s else budget_loop export_len (retry export_len s))
      else s)"
  by pat_completeness auto
termination
  by (relation "measure (\<lambda>(export_len, s). search_measure s)") (simp_all add: retry_decreases)

definition budget_search :: "(int \<Rightarrow> int \<Rightarrow> nat) \<Rightarrow> int \<Rightarrow> int \<Rightarrow> search" where
  "budget_search export_len dpi jpg_quality =
     budget_loop export_len
       \<lparr>dpi_try = dpi, jpg_q_try = min jpg_quality 85, last_dpi = None, last_q = None,
        out_bytes = export_len dpi jpg_quality, calls = [(dpi, jpg_quality)]\<rparr>"

declare budget_loop.simps [simp del]

text \<open>
  The number of 0.80-scalings that take a DPI down to the floor 10, and of 10-point
  steps that take a quality down to the floor 30.
\<close>

function dpi_scalings :: "int \<Rightarrow> nat" where
  "dpi_scalings d = (if d \<le> 10 then 0 else Suc (dpi_scalings (next_dpi d)))"
  by pat_completeness auto
termination
  by (relation "measure (\<lambda>d. nat (d - 10))") (use next_dpi_less in fastforce)+

function quality_steps :: "int \<Rightarrow> nat" where
  "quality_steps q = (if q \<le> 30 then 0 else Suc (quality_steps (next_q q)))"
  by pat_completeness auto
termination
  by (relation "measure (\<lambda>q. nat (q - 30))") (auto simp: next_q_def)

declare dpi_scalings.simps [simp del] quality_steps.simps [simp del]

text \<open>
  The values of \<open>(dpi_try, jpg_q_try)\<close> after \<open>n\<close> passes, the arguments of the
  \<open>n\<close>-th call of \<open>export_with_dpi\<close> (the first call, number 0, takes the preset's
  quality uncapped), the size of its output, and the state after \<open>n\<close> passes.
  \<open>steps_needed\<close>: the output first fits the target after exactly \<open>N\<close> degrade steps.
\<close>

definition tries :: "int \<Rightarrow> int \<Rightarrow> nat \<Rightarrow> int \<times> int" where
  "tries dpi jpg_quality n = ((next_dpi ^^ n) dpi, (next_q ^^ n) (min jpg_quality 85))"

definition call_at :: "int \<Rightarrow> int \<Rightarrow> nat \<Rightarrow> int \<times> int" where
  "call_at dpi jpg_quality n = (if n = 0 then (dpi, jpg_quality) else tries dpi jpg_quality n)"

definition size_after :: "(int \<Rightarrow> int \<Rightarrow> nat) \<Rightarrow> int \<Rightarrow> int \<Rightarrow> nat \<Rightarrow> nat" where
  "size_after export_len dpi jpg_quality n =
     (case call_at dpi jpg_quality n of (d, q) \<Rightarrow> export_len d q)"

definition steps_needed :: "(int \<Rightarrow> int \<Rightarrow> nat) \<Rightarrow> int \<Rightarrow> int \<Rightarrow> nat \<Rightarrow> bool" where
  "steps_needed export_len dpi jpg_quality N =
     ((\<forall>i < N. exceeds_target (size_after export_len dpi jpg_quality i))
      \<and> \<not> exceeds_target (size_after export_len dpi jpg_quality N))"

definition reached :: "(int \<Rightarrow> int \<Rightarrow> nat) \<Rightarrow> int \<Rightarrow> int \<Rightarrow> nat \<Rightarrow> search" where
  "reached export_len dpi jpg_quality n =
     \<lparr>dpi_try = fst (tries dpi jpg_quality n), jpg_q_try = snd (tries dpi jpg_quality n),
      last_dpi = (if n = 0 then None else Some (fst (tries dpi jpg_quality (n - 1)))),
      last_q = (if n = 0 then None else Some (snd (tries dpi jpg_quality (n - 1)))),
      out_bytes = size_after export_len dpi jpg_quality n,
      calls = map (call_at dpi jpg_quality) [0..<Suc n]\<rparr>"

section \<open>Properties of the size estimator\<close>

text \<open>
  C9: for all inputs, estimate_mb returns
  (width_px * height_px * 3 * comp + num_pages * 60000) / 1000000,
  and estimate_mb(1000, 1000, 1, 0.2) is 0.66.
\<close>

theorem estimate_mb_formula:
  "estimate_mb width_px height_px num_pages comp_f =
     (of_int (width_px * height_px * 3) * comp_f + of_int (num_pages * 60000)) / 1000000
   \<and> estimate_mb 1000 1000 1 (2 / 10) = 66 / 100"
  by (simp add: estimate_mb_def Let_def)

section \<open>Properties of the slice plan\<close>

lemma ranges_from_zip: "ranges_from start ys = zip (start # ys) (ys @ [1])"
  by (induction ys arbitrary: start) simp_all

lemma length_ranges_from: "length (ranges_from start ys) = Suc (length ys)"
  by (induction ys arbitrary: start) simp_all

lemma filter_unit_interval_id:
  "\<forall>c \<in> set cs. 0 < c \<and> c < 1 \<Longrightarrow> filter (\<lambda>y. 0 < y \<and> y < (1::real)) cs = cs"
  by (induction cs) simp_all

text \<open>
  C6: for a sorted Cut Set [c1..cn] of fractions in the open interval (0,1), the plan is
  exactly [(0,c1), (c1,c2), ..., (cn,1)]; for the empty Cut Set it is [(0,1)]; the plan
  has one range more than there are cuts, so no range is dropped by the planner.
\<close>

theorem plan_slices_exact:
  assumes "sorted cs" and "\<forall>c \<in> set cs. 0 < c \<and> c < 1"
  shows "plan_slices cs = zip (0 # cs) (cs @ [1])
         \<and> length (plan_slices cs) = length cs + 1
         \<and> plan_slices [] = [(0, 1)]"
proof -
  have "sort (filter (\<lambda>y. 0 < y \<and> y < 1) cs) = cs"
    using assms by (simp add: filter_unit_interval_id sort_key_id_if_sorted)
  then show ?thesis
    by (simp add: plan_slices_def ranges_from_zip)
qed

theorem plan_slices_exact_witness:
  "sorted [3 / 10, 7 / 10 :: real]
   \<and> plan_slices [3 / 10, 7 / 10] = [(0, 3 / 10), (3 / 10, 7 / 10), (7 / 10, 1)]
   \<and> plan_slices [] = [(0, 1)]"
  using plan_slices_exact [of "[3 / 10, 7 / 10]"] by simp

section \<open>Properties of the slice crops\<close>

lemma slice_crops_filter:
  "slice_crops H rs =
     map (\<lambda>(y0, y1). (py_int (y0 * of_int H), py_int (y1 * of_int H)))
       (filter (\<lambda>(y0, y1). \<not> (y1 - y0) * of_int H < 2) rs)"
  by (induction rs) (auto simp: Let_def)

lemma crop_height_ge2:
  assumes "0 \<le> a" and "\<not> (b - a) * of_int H < 2" and "0 \<le> H"
  shows "2 \<le> py_int (b * of_int H) - py_int (a * of_int H)"
proof -
  have a0: "0 \<le> a * of_int H" using assms by simp
  have "a * of_int H + 2 \<le> b * of_int H" using assms(2) by (simp add: algebra_simps)
  then have "\<lfloor>a * of_int H\<rfloor> + 2 \<le> \<lfloor>b * of_int H\<rfloor>" by linarith
  moreover have "0 \<le> b * of_int H" using a0 \<open>a * of_int H + 2 \<le> b * of_int H\<close> by linarith
  ultimately show ?thesis using a0 by (simp add: py_int_nonneg)
qed

lemma kept_positive_height:
  assumes "a \<le> b" and "\<not> (b - a) * of_int H < (2::real)"
  shows "0 < H"
proof (rule ccontr)
  assume "\<not> 0 < H"
  then have "(b - a) * of_int H \<le> 0"
    using assms(1) by (simp add: mult_nonneg_nonpos)
  then show False using assms(2) by simp
qed

lemma dropped_nonpos_height:
  assumes "H \<le> 0" and "a \<le> b"
  shows "(b - a) * of_int H < (2::real)"
proof -
  have "(b - a) * of_int H \<le> 0" using assms by (simp add: mult_nonneg_nonpos)
  then show ?thesis by simp
qed

lemma crops_empty_nonpos:
  assumes "H \<le> 0" and "sorted (start # ys)" and "\<forall>y \<in> set (start # ys). y \<le> 1"
  shows "slice_crops H (ranges_from start ys) = []"
  using assms(2,3)
proof (induction ys arbitrary: start)
  case Nil
  then show ?case using dropped_nonpos_height [OF assms(1), of start 1] by simp
next
  case (Cons y ys)
  then have "start \<le> y" by simp
  then show ?case
    using Cons dropped_nonpos_height [OF assms(1), of start y] by simp
qed

lemma py_int_fraction_le:
  assumes "0 < H" and "0 \<le> y" and "y \<le> 1"
  shows "py_int (y * of_int H) \<le> H"
proof -
  have "y * of_int H \<le> 1 * of_int H" using assms by (intro mult_right_mono) simp_all
  moreover have "0 \<le> y * of_int H" using assms by simp
  ultimately show ?thesis by (simp add: py_int_nonneg floor_le_iff)
qed

lemma py_int_fraction_mono:
  assumes "0 < H" and "0 \<le> x" and "x \<le> y"
  shows "py_int (x * of_int H) \<le> py_int (y * of_int H)"
  using assms by (intro py_int_mono_nonneg) (simp_all add: mult_right_mono)

lemma crops_bounds_pos:
  assumes "0 < H"
  shows "sorted (start # ys) \<Longrightarrow> 0 \<le> start \<Longrightarrow> \<forall>y \<in> set (start # ys). y \<le> 1 \<Longrightarrow>
         \<forall>(a, b) \<in> set (slice_crops H (ranges_from start ys)).
           py_int (start * of_int H) \<le> a \<and> a + 2 \<le> b \<and> b \<le> H"
proof (induction ys arbitrary: start)
  case Nil
  show ?case
  proof (cases "(1 - start) * of_int H < 2")
    case True
    then show ?thesis by simp
  next
    case False
    have "2 \<le> py_int (1 * of_int H) - py_int (start * of_int H)"
      using crop_height_ge2 [OF Nil.prems(2) False] assms by simp
    then show ?thesis using False assms by (simp add: py_int_nonneg)
  qed
next
  case (Cons y ys)
  have sy: "start \<le> y" and s': "sorted (y # ys)" and y0: "0 \<le> y"
    and y1: "\<forall>z \<in> set (y # ys). z \<le> 1"
    using Cons.prems by auto
  have IH: "\<forall>(a, b) \<in> set (slice_crops H (ranges_from y ys)).
              py_int (y * of_int H) \<le> a \<and> a + 2 \<le> b \<and> b \<le> H"
    by (rule Cons.IH [OF s' y0 y1])
  have mono: "py_int (start * of_int H) \<le> py_int (y * of_int H)"
    using assms Cons.prems(2) sy by (rule py_int_fraction_mono)
  show ?case
  proof (cases "(y - start) * of_int H < 2")
    case True
    then show ?thesis using IH mono by fastforce
  next
    case False
    have h2: "2 \<le> py_int (y * of_int H) - py_int (start * of_int H)"
      using crop_height_ge2 [OF Cons.prems(2) False] assms by simp
    have yH: "py_int (y * of_int H) \<le> H"
      using assms y0 y1 by (intro py_int_fraction_le) simp_all
    show ?thesis using False h2 yH IH mono by (fastforce simp: Let_def)
  qed
qed

lemma crops_bounds:
  assumes "sorted (start # ys)" and "0 \<le> start" and "\<forall>y \<in> set (start # ys). y \<le> 1"
  shows "\<forall>(a, b) \<in> set (slice_crops H (ranges_from start ys)).
           py_int (start * of_int H) \<le> a \<and> a + 2 \<le> b \<and> b \<le> H"
proof (cases "0 < H")
  case True
  then show ?thesis using assms by (rule crops_bounds_pos)
next
  case False
  then have "slice_crops H (ranges_from start ys) = []"
    using assms by (intro crops_empty_nonpos) simp_all
  then show ?thesis by simp
qed

lemma crops_disjoint:
  assumes "sorted (start # ys)" and "0 \<le> start" and "\<forall>y \<in> set (start # ys). y \<le> 1"
  shows "sorted_wrt crop_before (slice_crops H (ranges_from start ys))"
  using assms
proof (induction ys arbitrary: start)
  case Nil
  then show ?case by (simp add: Let_def)
next
  case (Cons y ys)
  have s': "sorted (y # ys)" and y0: "0 \<le> y" and y1: "\<forall>z \<in> set (y # ys). z \<le> 1"
    using Cons.prems by auto
  have b: "\<forall>(a, b) \<in> set (slice_crops H (ranges_from y ys)). py_int (y * of_int H) \<le> a"
    using crops_bounds [OF s' y0 y1, of H] by fastforce
  show ?case using Cons.IH [OF s' y0 y1] b by (auto simp: Let_def crop_before_def)
qed

lemma crops_total:
  assumes "0 \<le> H"
  shows "sorted (start # ys) \<Longrightarrow> 0 \<le> start \<Longrightarrow> \<forall>y \<in> set (start # ys). y \<le> 1 \<Longrightarrow>
    sum_list (map (\<lambda>(y0_px, y1_px). y1_px - y0_px) (slice_crops H (ranges_from start ys)))
      \<le> H - py_int (start * of_int H)"
proof (induction ys arbitrary: start)
  case Nil
  have "py_int (start * of_int H) \<le> H"
  proof (cases "H = 0")
    case True then show ?thesis by (simp add: py_int_def)
  next
    case False
    then show ?thesis using assms Nil.prems by (intro py_int_fraction_le) simp_all
  qed
  then show ?case using assms by (simp add: Let_def py_int_nonneg)
next
  case (Cons y ys)
  have sy: "start \<le> y" and s': "sorted (y # ys)" and y0: "0 \<le> y"
    and y1: "\<forall>z \<in> set (y # ys). z \<le> 1"
    using Cons.prems by auto
  have "py_int (start * of_int H) \<le> py_int (y * of_int H)"
    using assms Cons.prems(2) sy by (intro py_int_mono_nonneg) (simp_all add: mult_right_mono)
  then show ?case using Cons.IH [OF s' y0 y1] by (simp add: Let_def)
qed

lemma plan_cuts_sorted:
  "sorted (0 # sort (filter (\<lambda>y. 0 < y \<and> y < (1::real)) cs))
   \<and> (\<forall>y \<in> set (0 # sort (filter (\<lambda>y. 0 < y \<and> y < (1::real)) cs)). y \<le> 1)"
  by (auto simp: less_imp_le)

text \<open>
  C8: for every list of cuts and every raster height, the crops of the kept slices are
  pairwise non-overlapping (each ends at or before the row where every later one
  starts), each lies within the raster, and their heights sum to at most the raster
  height.
\<close>

theorem export_crops_disjoint_within_raster:
  assumes "0 \<le> export_H"
  shows "sorted_wrt crop_before (slice_crops export_H (plan_slices cuts))
       \<and> (\<forall>(y0_px, y1_px) \<in> set (slice_crops export_H (plan_slices cuts)).
             0 \<le> y0_px \<and> y0_px < y1_px \<and> y1_px \<le> export_H)
       \<and> sum_list (map (\<lambda>(y0_px, y1_px). y1_px - y0_px) (slice_crops export_H (plan_slices cuts)))
             \<le> export_H"
proof -
  let ?cs = "sort (filter (\<lambda>y. 0 < y \<and> y < (1::real)) cuts)"
  have s: "sorted (0 # ?cs)" and u: "\<forall>y \<in> set (0 # ?cs). y \<le> 1"
    using plan_cuts_sorted [of cuts] by blast+
  have p: "plan_slices cuts = ranges_from 0 ?cs" by (simp add: plan_slices_def)
  have a: "sorted_wrt crop_before (slice_crops export_H (ranges_from 0 ?cs))"
    using s _ u by (rule crops_disjoint) simp
  have b: "\<forall>(a, b) \<in> set (slice_crops export_H (ranges_from 0 ?cs)).
             py_int (0 * of_int export_H) \<le> a \<and> a + 2 \<le> b \<and> b \<le> export_H"
    using s _ u by (rule crops_bounds) simp
  have c: "sum_list (map (\<lambda>(y0_px, y1_px). y1_px - y0_px) (slice_crops export_H (ranges_from 0 ?cs)))
             \<le> export_H - py_int (0 * of_int export_H)"
    using assms s _ u by (rule crops_total) simp
  have z: "py_int (0 * of_int export_H) = 0" by (simp add: py_int_def)
  show ?thesis using a b c unfolding p z by fastforce
qed

theorem export_crops_disjoint_within_raster_witness:
  "(0::int) \<le> 100
   \<and> slice_crops 100 (plan_slices [1 / 10000, 1 / 2]) = [(0, 50), (50, 100)]
   \<and> sorted_wrt crop_before (slice_crops 100 (plan_slices [1 / 10000, 1 / 2]))
   \<and> sum_list (map (\<lambda>(y0_px, y1_px). y1_px - y0_px)
         (slice_crops 100 (plan_slices [1 / 10000, 1 / 2]))) \<le> 100"
proof -
  have "slice_crops 100 (plan_slices [1 / 10000, 1 / 2]) = [(0, 50), (50, 100)]"
    by (simp add: plan_slices_def py_int_def)
  then show ?thesis
    using export_crops_disjoint_within_raster [of 100 "[1 / 10000, 1 / 2]"] by simp
qed

subsection \<open>The loop in double precision\<close>

text \<open>Evaluating \<open>rn\<close>: in a known binade the rounding is a rounding of integers.\<close>

lemma rn_eval:
  assumes "- 1022 \<le> e" and "2 powi e \<le> \<bar>x\<bar>" and "\<bar>x\<bar> < 2 powi (e + 1)"
  shows "rn x = of_int (py_round (x / 2 powi (e - 52))) * 2 powi (e - 52)"
proof -
  have pos: "0 < \<bar>x\<bar>" using assms(2) by (smt (verit) zero_less_power_int)
  have "2 powr (of_int e) = (2::real) powi e" "2 powr (of_int e + 1) = (2::real) powi (e + 1)"
    using powr_real_of_int' [of 2 e] powr_real_of_int' [of 2 "e + 1"] by simp_all
  then have "\<lfloor>log 2 \<bar>x\<bar>\<rfloor> = e"
    using assms(2,3) pos by (simp add: floor_log_eq_powr_iff)
  then show ?thesis using pos assms(1) by (simp add: rn_def Let_def)
qed

lemma py_round_of_int: "py_round (of_int k) = k"
  by (simp add: py_round_def)

lemma rn_of_int:
  assumes "\<bar>n\<bar> < 2 ^ 53"
  shows "rn (of_int n) = of_int n"
proof (cases "n = 0")
  case True
  then show ?thesis by (simp add: rn_def)
next
  case False
  define e where "e = \<lfloor>log 2 \<bar>of_int n :: real\<bar>\<rfloor>"
  have n1: "1 \<le> \<bar>of_int n :: real\<bar>" using False by (simp flip: of_int_abs)
  have n53: "\<bar>of_int n :: real\<bar> < 2 ^ 53"
    using assms by (metis of_int_abs of_int_less_numeral_power_cancel_iff)
  have "0 \<le> log 2 \<bar>of_int n :: real\<bar>" using n1 by simp
  then have e0: "0 \<le> e" by (simp add: e_def)
  have "log 2 \<bar>of_int n :: real\<bar> < 53" using n1 n53 by (simp add: log_less_iff)
  then have e52: "e \<le> 52" unfolding e_def by linarith
  have "(2::real) powi (e - 52) = inverse (2 ^ nat (52 - e))"
    using e52 by (simp add: power_int_def power_one_over inverse_eq_divide)
  then have ulp: "of_int n / (2::real) powi (e - 52) = of_int (n * 2 ^ nat (52 - e))"
    by (simp add: field_simps)
  have m: "max (- 1022) \<lfloor>log 2 \<bar>of_int n :: real\<bar>\<rfloor> = e"
    using e0 by (simp add: e_def)
  have "rn (of_int n) = of_int (py_round (of_int n / 2 powi (e - 52))) * 2 powi (e - 52)"
    using False by (simp add: rn_def Let_def m)
  also have "py_round (of_int n / 2 powi (e - 52)) = n * 2 ^ nat (52 - e)"
    by (simp only: ulp py_round_of_int)
  also have "of_int (n * 2 ^ nat (52 - e)) * (2::real) powi (e - 52) = of_int n"
    by (simp add: \<open>(2::real) powi (e - 52) = inverse (2 ^ nat (52 - e))\<close>)
  finally show ?thesis .
qed

lemma plan_slices_single: "0 < c \<Longrightarrow> c < 1 \<Longrightarrow> plan_slices [c] = [(0, c), (c, 1)]"
  by (simp add: plan_slices_def)

lemma py_int_zero: "py_int 0 = 0"
  by (simp add: py_int_def)

lemma fl_mul_zero: "fl_mul 0 y = 0"
  by (simp add: fl_mul_def rn_def)

lemma slice_crops_fl_filter:
  "slice_crops_fl H rs =
     map (\<lambda>(y0, y1). (py_int (fl_mul y0 (fl_of_int H)), py_int (fl_mul y1 (fl_of_int H))))
       (filter (\<lambda>(y0, y1). \<not> fl_mul (fl_sub y1 y0) (fl_of_int H) < 2) rs)"
  by (induction rs) (auto simp: Let_def)

lemma py_round_nonneg: "0 \<le> x \<Longrightarrow> 0 \<le> py_round x"
  by (simp add: py_round_def Let_def)

lemma rn_nonneg: "0 \<le> x \<Longrightarrow> 0 \<le> rn x"
  by (simp add: rn_def Let_def py_round_nonneg)

lemma rn_near:
  assumes "\<bar>x\<bar> < 2 ^ 53"
  shows "\<bar>rn x - x\<bar> \<le> 1 / 2"
proof (cases "x = 0")
  case True
  then show ?thesis by (simp add: rn_def)
next
  case False
  define e where "e = max (- 1022) \<lfloor>log 2 \<bar>x\<bar>\<rfloor>"
  define ulp :: real where "ulp = 2 powi (e - 52)"
  have "log 2 \<bar>x\<bar> < 53" using False assms by (simp add: log_less_iff)
  then have "\<lfloor>log 2 \<bar>x\<bar>\<rfloor> \<le> 52" by linarith
  then have "e - 52 \<le> 0" by (simp add: e_def)
  then have "ulp \<le> 2 powi 0" unfolding ulp_def by (intro power_int_increasing) simp_all
  then have u1: "ulp \<le> 1" by simp
  have u0: "0 < ulp" by (simp add: ulp_def)
  have r: "rn x = of_int (py_round (x / ulp)) * ulp"
    using False by (simp add: rn_def Let_def ulp_def e_def)
  have "rn x - x = (of_int (py_round (x / ulp)) - x / ulp) * ulp"
    using u0 by (simp add: r field_simps)
  then have "\<bar>rn x - x\<bar> = \<bar>of_int (py_round (x / ulp)) - x / ulp\<bar> * ulp"
    using u0 by (simp add: abs_mult)
  also have "\<dots> \<le> (1 / 2) * 1"
    using py_round_near [of "x / ulp"] u0 u1 by (intro mult_mono) simp_all
  finally show ?thesis by simp
qed

lemma row_near_exact:
  assumes "0 \<le> y" and "y \<le> 1" and "0 \<le> H" and "H < 2 ^ 53"
  shows "\<bar>py_int (fl_mul y (fl_of_int H)) - py_int (y * of_int H)\<bar> \<le> 1"
proof -
  let ?x = "y * of_int H"
  have h: "fl_of_int H = of_int H"
    using assms(3,4) by (simp add: fl_of_int_def rn_of_int)
  have x0: "0 \<le> ?x" using assms(1,3) by simp
  have "?x \<le> 1 * of_int H" using assms(2,3) by (intro mult_right_mono) simp_all
  moreover have "(of_int H :: real) < 2 ^ 53"
    using assms(4) by (metis of_int_less_numeral_power_cancel_iff)
  ultimately have "\<bar>?x\<bar> < 2 ^ 53" using x0 by simp
  then have n: "\<bar>rn ?x - ?x\<bar> \<le> 1 / 2" by (rule rn_near)
  have "0 \<le> rn ?x" using x0 by (rule rn_nonneg)
  then have "py_int (rn ?x) = \<lfloor>rn ?x\<rfloor>" "py_int ?x = \<lfloor>?x\<rfloor>"
    using x0 by (simp_all add: py_int_nonneg)
  moreover have "\<bar>\<lfloor>rn ?x\<rfloor> - \<lfloor>?x\<rfloor>\<bar> \<le> 1" using n by linarith
  ultimately show ?thesis by (simp add: fl_mul_def h)
qed

lemma py_round_py_int: "\<bar>py_round x - py_int x\<bar> \<le> 1"
  unfolding py_round_def py_int_def Let_def by (auto; linarith)

text \<open>
  The loop on single cuts: 0.26 on 10 rows; rows 23 and 2418 of a 2420-row raster (the
  last slice of the second, two rows tall, is skipped: its product is the double just
  below 2); 0.0001 on 100 rows.
\<close>

lemma crops_cut_026:
  "slice_crops_fl 10 (plan_slices [rn (26 / 100)]) = [(0, 2), (2, 10)]
   \<and> py_int (fl_mul (rn (26 / 100)) (fl_of_int 10)) = 2
   \<and> py_round (fl_mul (rn (26 / 100)) (fl_of_int 10)) = 3
   \<and> 0 < rn (26 / 100) \<and> rn (26 / 100) < 1"
proof -
  define c :: real where "c = 1170935903116329 / 2 ^ 52"
  define d :: real where "d = 3332663724254167 / 2 ^ 52"
  define p :: real where "p = 5854679515581645 / 2 ^ 51"
  have h: "fl_of_int 10 = 10"
    using rn_of_int [of 10] by (simp add: fl_of_int_def)
  have rc: "rn (26 / 100) = c"
    unfolding c_def by (subst rn_eval [where e = "- 2"]) (simp_all add: py_round_def)
  have c01: "0 < c" "c < 1" by (simp_all add: c_def)
  have a: "rn (c - 0) = c"
    unfolding c_def by (subst rn_eval [where e = "- 2"]) (simp_all add: py_round_def)
  have b: "rn (c * 10) = p"
    unfolding c_def p_def by (subst rn_eval [where e = 1]) (simp_all add: py_round_def)
  have s: "rn (1 - c) = d"
    unfolding c_def d_def by (subst rn_eval [where e = "- 1"]) (simp_all add: py_round_def)
  have e: "rn (d * 10) = 4165829655317709 / 2 ^ 49"
    unfolding d_def by (subst rn_eval [where e = 2]) (simp_all add: py_round_def)
  have f: "rn (1 * 10) = 10"
    by (subst rn_eval [where e = 3]) (simp_all add: py_round_def)
  have f1: "\<not> fl_mul (fl_sub c 0) 10 < 2"
    by (simp only: fl_mul_def fl_sub_def a b, (simp add: p_def)?)
  have f2: "\<not> fl_mul (fl_sub 1 c) 10 < 2"
    by (simp only: fl_mul_def fl_sub_def s e, simp?)
  have f3: "py_int (fl_mul c 10) = 2"
    by (simp only: fl_mul_def b, (simp add: p_def py_int_def)?)
  have f4: "py_int (fl_mul 1 10) = 10"
    by (simp only: fl_mul_def f, (simp add: py_int_def)?)
  have f5: "py_round (fl_mul c 10) = 3"
    by (simp only: fl_mul_def b, (simp add: p_def py_round_def)?)
  have "slice_crops_fl 10 [(0, c), (c, 1)] = [(0, 2), (2, 10)]"
    by (simp add: h f1 f2 f3 f4 fl_mul_zero py_int_zero)
  then show ?thesis by (simp only: rc h plan_slices_single [OF c01] f3 f5 c01 simp_thms)
qed

lemma crops_cut_row_23:
  "slice_crops_fl 2420 (plan_slices [rn (23 / 2420)]) = [(0, 22), (22, 2420)]
   \<and> py_int (fl_mul (rn (23 / 2420)) (fl_of_int 2420)) = 22
   \<and> py_round (fl_mul (rn (23 / 2420)) (fl_of_int 2420)) = 23
   \<and> 0 < rn (23 / 2420) \<and> rn (23 / 2420) < 1"
proof -
  define c :: real where "c = 5478759216106917 / 2 ^ 59"
  define d :: real where "d = 8921593641989321 / 2 ^ 53"
  define p :: real where "p = 6473924464345087 / 2 ^ 48"
  have h: "fl_of_int 2420 = 2420"
    using rn_of_int [of 2420] by (simp add: fl_of_int_def)
  have rc: "rn (23 / 2420) = c"
    unfolding c_def by (subst rn_eval [where e = "- 7"]) (simp_all add: py_round_def)
  have c01: "0 < c" "c < 1" by (simp_all add: c_def)
  have a: "rn (c - 0) = c"
    unfolding c_def by (subst rn_eval [where e = "- 7"]) (simp_all add: py_round_def)
  have b: "rn (c * 2420) = p"
    unfolding c_def p_def by (subst rn_eval [where e = 4]) (simp_all add: py_round_def)
  have s: "rn (1 - c) = d"
    unfolding c_def d_def by (subst rn_eval [where e = "- 1"]) (simp_all add: py_round_def)
  have e: "rn (d * 2420) = 2397"
    unfolding d_def by (subst rn_eval [where e = 11]) (simp_all add: py_round_def)
  have f: "rn (1 * 2420) = 2420"
    by (subst rn_eval [where e = 11]) (simp_all add: py_round_def)
  have f1: "\<not> fl_mul (fl_sub c 0) 2420 < 2"
    by (simp only: fl_mul_def fl_sub_def a b, (simp add: p_def)?)
  have f2: "\<not> fl_mul (fl_sub 1 c) 2420 < 2"
    by (simp only: fl_mul_def fl_sub_def s e, simp?)
  have f3: "py_int (fl_mul c 2420) = 22"
    by (simp only: fl_mul_def b, (simp add: p_def py_int_def)?)
  have f4: "py_int (fl_mul 1 2420) = 2420"
    by (simp only: fl_mul_def f, (simp add: py_int_def)?)
  have f5: "py_round (fl_mul c 2420) = 23"
    by (simp only: fl_mul_def b, (simp add: p_def py_round_def)?)
  have "slice_crops_fl 2420 [(0, c), (c, 1)] = [(0, 22), (22, 2420)]"
    by (simp add: h f1 f2 f3 f4 fl_mul_zero py_int_zero)
  then show ?thesis by (simp only: rc h plan_slices_single [OF c01] f3 f5 c01 simp_thms)
qed

lemma crops_cut_row_2418:
  "slice_crops_fl 2420 (plan_slices [rn (2418 / 2420)]) = [(0, 2418)]
   \<and> py_int (fl_mul (rn (2418 / 2420)) (fl_of_int 2420)) = 2418
   \<and> py_round (fl_mul (rn (2418 / 2420)) (fl_of_int 2420)) = 2418
   \<and> 0 < rn (2418 / 2420) \<and> rn (2418 / 2420) < 1"
proof -
  define c :: real where "c = 1124969411051845 / 2 ^ 50"
  define d :: real where "d = 930495790779 / 2 ^ 50"
  define p :: real where "p = 2418"
  have h: "fl_of_int 2420 = 2420"
    using rn_of_int [of 2420] by (simp add: fl_of_int_def)
  have rc: "rn (2418 / 2420) = c"
    unfolding c_def by (subst rn_eval [where e = "- 1"]) (simp_all add: py_round_def)
  have c01: "0 < c" "c < 1" by (simp_all add: c_def)
  have a: "rn (c - 0) = c"
    unfolding c_def by (subst rn_eval [where e = "- 1"]) (simp_all add: py_round_def)
  have b: "rn (c * 2420) = p"
    unfolding c_def p_def by (subst rn_eval [where e = 11]) (simp_all add: py_round_def)
  have s: "rn (1 - c) = d"
    unfolding c_def d_def by (subst rn_eval [where e = "- 11"]) (simp_all add: py_round_def)
  have e: "rn (d * 2420) = 562949953421295 / 2 ^ 48"
    unfolding d_def by (subst rn_eval [where e = 0]) (simp_all add: py_round_def)
  have f: "rn (1 * 2420) = 2420"
    by (subst rn_eval [where e = 11]) (simp_all add: py_round_def)
  have f1: "\<not> fl_mul (fl_sub c 0) 2420 < 2"
    by (simp only: fl_mul_def fl_sub_def a b, (simp add: p_def)?)
  have f2: "fl_mul (fl_sub 1 c) 2420 < 2"
    by (simp only: fl_mul_def fl_sub_def s e, simp?)
  have f3: "py_int (fl_mul c 2420) = 2418"
    by (simp only: fl_mul_def b, (simp add: p_def py_int_def)?)
  have f4: "py_int (fl_mul 1 2420) = 2420"
    by (simp only: fl_mul_def f, (simp add: py_int_def)?)
  have f5: "py_round (fl_mul c 2420) = 2418"
    by (simp only: fl_mul_def b, (simp add: p_def py_round_def)?)
  have "slice_crops_fl 2420 [(0, c), (c, 1)] = [(0, 2418)]"
    by (simp add: h f1 f2 f3 f4 fl_mul_zero py_int_zero)
  then show ?thesis by (simp only: rc h plan_slices_single [OF c01] f3 f5 c01 simp_thms)
qed

lemma crops_cut_tiny:
  "slice_crops_fl 100 (plan_slices [rn (1 / 10000)]) = [(0, 100)]
   \<and> py_int (fl_mul (rn (1 / 10000)) (fl_of_int 100)) = 0
   \<and> py_round (fl_mul (rn (1 / 10000)) (fl_of_int 100)) = 0
   \<and> 0 < rn (1 / 10000) \<and> rn (1 / 10000) < 1"
proof -
  define c :: real where "c = 7378697629483821 / 2 ^ 66"
  define d :: real where "d = 4503149267407759 / 2 ^ 52"
  define p :: real where "p = 5764607523034235 / 2 ^ 59"
  have h: "fl_of_int 100 = 100"
    using rn_of_int [of 100] by (simp add: fl_of_int_def)
  have rc: "rn (1 / 10000) = c"
    unfolding c_def by (subst rn_eval [where e = "- 14"]) (simp_all add: py_round_def)
  have c01: "0 < c" "c < 1" by (simp_all add: c_def)
  have a: "rn (c - 0) = c"
    unfolding c_def by (subst rn_eval [where e = "- 14"]) (simp_all add: py_round_def)
  have b: "rn (c * 100) = p"
    unfolding c_def p_def by (subst rn_eval [where e = "- 7"]) (simp_all add: py_round_def)
  have s: "rn (1 - c) = d"
    unfolding c_def d_def by (subst rn_eval [where e = "- 1"]) (simp_all add: py_round_def)
  have e: "rn (d * 100) = 7036170730324623 / 2 ^ 46"
    unfolding d_def by (subst rn_eval [where e = 6]) (simp_all add: py_round_def)
  have f: "rn (1 * 100) = 100"
    by (subst rn_eval [where e = 6]) (simp_all add: py_round_def)
  have f1: "fl_mul (fl_sub c 0) 100 < 2"
    by (simp only: fl_mul_def fl_sub_def a b, (simp add: p_def)?)
  have f2: "\<not> fl_mul (fl_sub 1 c) 100 < 2"
    by (simp only: fl_mul_def fl_sub_def s e, simp?)
  have f3: "py_int (fl_mul c 100) = 0"
    by (simp only: fl_mul_def b, (simp add: p_def py_int_def)?)
  have f4: "py_int (fl_mul 1 100) = 100"
    by (simp only: fl_mul_def f, (simp add: py_int_def)?)
  have f5: "py_round (fl_mul c 100) = 0"
    by (simp only: fl_mul_def b, (simp add: p_def py_round_def)?)
  have "slice_crops_fl 100 [(0, c), (c, 1)] = [(0, 100)]"
    by (simp add: h f1 f2 f3 f4 fl_mul_zero py_int_zero)
  then show ?thesis by (simp only: rc h plan_slices_single [OF c01] f3 f5 c01 simp_thms)
qed

lemma py_round_mono: "z \<le> w \<Longrightarrow> py_round z \<le> py_round w"
proof -
  assume zw: "z \<le> w"
  have lo: "\<lfloor>x\<rfloor> \<le> py_round x" and hi: "py_round x \<le> \<lfloor>x\<rfloor> + 1" for x
    by (simp_all add: py_round_def Let_def)
  show ?thesis
  proof (cases "\<lfloor>z\<rfloor> = \<lfloor>w\<rfloor>")
    case True
    then show ?thesis using zw by (simp add: py_round_def Let_def)
  next
    case False
    then have "\<lfloor>z\<rfloor> < \<lfloor>w\<rfloor>" using zw floor_mono [of z w] by simp
    then show ?thesis using hi [of z] lo [of w] by linarith
  qed
qed

lemma rn_pos_form:
  assumes "0 < x"
  defines "e \<equiv> max (- 1022) \<lfloor>log 2 x\<rfloor>"
  shows "rn x = of_int (py_round (x / 2 powi (e - 52))) * 2 powi (e - 52)"
    and "x < 2 powi (e + 1)"
    and "rn x \<le> 2 powi (e + 1)"
    and "- 1022 < e \<Longrightarrow> 2 powi e \<le> rn x"
proof -
  let ?u = "2 powi (e - 52) :: real"
  have u0: "0 < ?u" by simp
  show r: "rn x = of_int (py_round (x / ?u)) * ?u"
    using assms(1) by (simp add: rn_def Let_def e_def)
  have "\<lfloor>log 2 x\<rfloor> \<le> e" by (simp add: e_def)
  then have "log 2 x < of_int (e + 1)" by linarith
  then have "x < 2 powr of_int (e + 1)" using assms(1) by (simp add: log_less_iff)
  then show x_hi: "x < 2 powi (e + 1)" using powr_real_of_int' [of 2 "e + 1"] by simp
  have split: "(2::real) powi (e + 1) = 2 ^ 53 * ?u"
    by (simp add: power_int_diff power_int_add)
  then have "x / ?u < 2 ^ 53" using x_hi u0 by (simp add: field_simps)
  then have "py_round (x / ?u) \<le> py_round (of_int (2 ^ 53))"
    by (intro py_round_mono) simp
  then have "py_round (x / ?u) \<le> 2 ^ 53" by (simp only: py_round_of_int)
  then have "(of_int (py_round (x / ?u)) :: real) \<le> 2 ^ 53"
    by (metis of_int_le_numeral_power_cancel_iff)
  then have "of_int (py_round (x / ?u)) * ?u \<le> 2 ^ 53 * ?u"
    using u0 by (intro mult_right_mono) simp_all
  then show "rn x \<le> 2 powi (e + 1)" by (simp only: r split)
  show "2 powi e \<le> rn x" if "- 1022 < e"
  proof -
    have "\<lfloor>log 2 x\<rfloor> = e" using that by (simp add: e_def max_def split: if_splits)
    then have "of_int e \<le> log 2 x" by linarith
    then have "2 powr of_int e \<le> x" using assms(1) by (simp add: le_log_iff)
    then have x_lo: "2 powi e \<le> x" using powr_real_of_int' [of 2 e] by simp
    have split': "(2::real) powi e = 2 ^ 52 * ?u" by (simp add: power_int_diff)
    then have "2 ^ 52 \<le> x / ?u" using x_lo u0 by (simp add: field_simps)
    then have "py_round (of_int (2 ^ 52)) \<le> py_round (x / ?u)"
      by (intro py_round_mono) simp
    then have "2 ^ 52 \<le> py_round (x / ?u)" by (simp only: py_round_of_int)
    then have "2 ^ 52 \<le> (of_int (py_round (x / ?u)) :: real)"
      by (metis numeral_power_le_of_int_cancel_iff)
    then have "2 ^ 52 * ?u \<le> of_int (py_round (x / ?u)) * ?u"
      using u0 by (intro mult_right_mono) simp_all
    then show ?thesis by (simp only: r split')
  qed
qed


lemma rn_mono:
  assumes "0 \<le> x" and "x \<le> y"
  shows "rn x \<le> rn y"
proof (cases "x = 0")
  case True
  then show ?thesis using assms rn_nonneg [of y] by (simp add: rn_def)
next
  case False
  then have x: "0 < x" and y: "0 < y" using assms by simp_all
  define ex where "ex = max (- 1022) \<lfloor>log 2 x\<rfloor>"
  define ey where "ey = max (- 1022) \<lfloor>log 2 y\<rfloor>"
  have "log 2 x \<le> log 2 y" using x assms(2) by simp
  then have "\<lfloor>log 2 x\<rfloor> \<le> \<lfloor>log 2 y\<rfloor>" by (rule floor_mono)
  then have le: "ex \<le> ey" by (simp add: ex_def ey_def)
  show ?thesis
  proof (cases "ex = ey")
    case True
    let ?u = "2 powi (ex - 52) :: real"
    have "x / ?u \<le> y / ?u" using assms(2) by (simp add: divide_right_mono)
    then have "py_round (x / ?u) \<le> py_round (y / ?u)" by (rule py_round_mono)
    then have "of_int (py_round (x / ?u)) * ?u \<le> of_int (py_round (y / ?u)) * ?u"
      by (intro mult_right_mono) simp_all
    then show ?thesis
      using rn_pos_form(1) [OF x] rn_pos_form(1) [OF y] True
      by (simp add: ex_def ey_def)
  next
    case False
    then have lt: "ex + 1 \<le> ey" using le by simp
    have "- 1022 \<le> ex" by (simp add: ex_def)
    then have "- 1022 < ey" using lt by simp
    then have "2 powi ey \<le> rn y"
      using rn_pos_form(4) [OF y] by (simp add: ey_def)
    moreover have "rn x \<le> 2 powi (ex + 1)"
      using rn_pos_form(3) [OF x] by (simp add: ex_def)
    moreover have "(2::real) powi (ex + 1) \<le> 2 powi ey"
      using lt by (intro power_int_increasing) simp_all
    ultimately show ?thesis by linarith
  qed
qed

lemma crops_chain:
  fixes r :: "real \<Rightarrow> int"
  assumes mono: "\<And>a b. 0 \<le> a \<Longrightarrow> a \<le> b \<Longrightarrow> b \<le> 1 \<Longrightarrow> r a \<le> r b"
  shows "sorted (start # ys) \<Longrightarrow> 0 \<le> start \<Longrightarrow> \<forall>y\<in>set (start # ys). y \<le> 1 \<Longrightarrow>
    (\<forall>(a, b)\<in>set (map (\<lambda>(y0, y1). (r y0, r y1)) (filter keep (ranges_from start ys))).
        r start \<le> a \<and> a \<le> b \<and> b \<le> r 1)
    \<and> sorted_wrt crop_before (map (\<lambda>(y0, y1). (r y0, r y1)) (filter keep (ranges_from start ys)))
    \<and> sum_list (map (\<lambda>(a, b). b - a) (map (\<lambda>(y0, y1). (r y0, r y1)) (filter keep (ranges_from start ys))))
        \<le> r 1 - r start"
proof (induction ys arbitrary: start)
  case Nil
  then have "r start \<le> r 1" by (intro mono) simp_all
  then show ?case by (simp add: crop_before_def)
next
  case (Cons y ys)
  have sy: "start \<le> y" "0 \<le> y" "y \<le> 1" using Cons.prems by simp_all
  have step: "r start \<le> r y" using Cons.prems sy by (intro mono) simp_all
  have top: "r y \<le> r 1" using sy by (intro mono) simp_all
  define cs where "cs = map (\<lambda>(y0, y1). (r y0, r y1)) (filter keep (ranges_from y ys))"
  have ih: "(\<forall>(a, b)\<in>set cs. r y \<le> a \<and> a \<le> b \<and> b \<le> r 1)
    \<and> sorted_wrt crop_before cs
    \<and> sum_list (map (\<lambda>(a, b). b - a) cs) \<le> r 1 - r y"
    unfolding cs_def using Cons.prems sy by (intro Cons.IH) simp_all
  have eq: "map (\<lambda>(y0, y1). (r y0, r y1)) (filter keep (ranges_from start (y # ys)))
    = (if keep (start, y) then (r start, r y) # cs else cs)"
    by (simp add: cs_def)
  have b: "\<forall>(a, b)\<in>set cs. r start \<le> a \<and> a \<le> b \<and> b \<le> r 1"
    using ih step by fastforce
  have h: "\<forall>c\<in>set cs. crop_before (r start, r y) c"
    using ih by (fastforce simp add: crop_before_def)
  have t: "sum_list (map (\<lambda>(a, b). b - a) cs) \<le> r 1 - r start"
    using ih step by linarith
  have t': "r y - r start + sum_list (map (\<lambda>(a, b). b - a) cs) \<le> r 1 - r start"
    using ih by linarith
  show ?case
    unfolding eq using ih b h t t' step top by simp
qed


text \<open>
  Rounding to the nearest double is monotone, so the rows computed in double precision
  are monotone in the fraction. The crops of the double-precision loop on a planned
  page therefore keep the order of the plan, stay inside the raster and have heights
  that sum to at most the raster height, as those of the exact loop do.
\<close>

lemma slice_crops_fl_disjoint_within_raster:
  assumes "0 \<le> export_H" and "export_H < 2 ^ 53"
  shows "sorted_wrt crop_before (slice_crops_fl export_H (plan_slices cuts))
    \<and> (\<forall>(y0_px, y1_px)\<in>set (slice_crops_fl export_H (plan_slices cuts)).
          0 \<le> y0_px \<and> y0_px \<le> y1_px \<and> y1_px \<le> export_H)
    \<and> sum_list (map (\<lambda>(y0_px, y1_px). y1_px - y0_px) (slice_crops_fl export_H (plan_slices cuts)))
        \<le> export_H"
proof -
  define r where "r y = py_int (fl_mul y (fl_of_int export_H))" for y
  define keep where "keep = (\<lambda>(y0, y1). \<not> fl_mul (fl_sub y1 y0) (fl_of_int export_H) < 2)"
  let ?cs = "sort (filter (\<lambda>y. 0 < y \<and> y < 1) cuts)"
  have H: "fl_of_int export_H = of_int export_H"
    using assms by (simp add: fl_of_int_def rn_of_int)
  have mono: "r a \<le> r b" if "0 \<le> a" "a \<le> b" "b \<le> 1" for a b
  proof -
    have "a * of_int export_H \<le> b * of_int export_H"
      using that assms by (intro mult_right_mono) simp_all
    moreover have "0 \<le> a * of_int export_H" using that assms by simp
    ultimately have "rn (a * of_int export_H) \<le> rn (b * of_int export_H)"
      and "0 \<le> rn (a * of_int export_H)"
      by (simp_all add: rn_mono rn_nonneg)
    then show ?thesis
      unfolding r_def fl_mul_def H by (intro py_int_mono_nonneg)
  qed
  have r0: "r 0 = 0" by (simp add: r_def fl_mul_zero py_int_zero)
  have r1: "r 1 = export_H"
    using assms by (simp add: r_def fl_mul_def H rn_of_int py_int_def)
  have eq: "slice_crops_fl export_H (plan_slices cuts)
    = map (\<lambda>(y0, y1). (r y0, r y1)) (filter keep (ranges_from 0 ?cs))"
    by (simp add: slice_crops_fl_filter plan_slices_def r_def keep_def)
  have s: "sorted (0 # ?cs)" by (auto simp add: less_imp_le)
  have u: "\<forall>y\<in>set (0 # ?cs). y \<le> 1" by auto
  show ?thesis
    using crops_chain [of r 0 ?cs keep, OF mono s _ u]
    unfolding eq r0 r1 by simp
qed


text \<open>
  C7, as the code has it: the pixel rows of a range are int(fraction * raster height),
  the product taken in double precision and truncated, not rounded; a range is skipped
  when the double product (y1 - y0) * raster height is below 2. A raster height below
  2 ^ 53 converts exactly; for a fraction in [0, 1] the row is then within one of the
  exact floor(fraction * raster height), and it is always within one of the rounded
  product. A single cut at 0.0001 on a 100-pixel raster leaves the single full-page
  crop (0, 100).
\<close>

theorem slice_rows_truncated:
  "slice_crops_fl export_H ranges =
     map (\<lambda>(y0, y1). (py_int (fl_mul y0 (fl_of_int export_H)),
                       py_int (fl_mul y1 (fl_of_int export_H))))
       (filter (\<lambda>(y0, y1). \<not> fl_mul (fl_sub y1 y0) (fl_of_int export_H) < 2) ranges)
   \<and> (0 \<le> export_H \<and> export_H < 2 ^ 53 \<longrightarrow> fl_of_int export_H = of_int export_H)
   \<and> (0 \<le> y \<and> y \<le> 1 \<and> 0 \<le> export_H \<and> export_H < 2 ^ 53 \<longrightarrow>
        \<bar>py_int (fl_mul y (fl_of_int export_H)) - py_int (y * of_int export_H)\<bar> \<le> 1)
   \<and> \<bar>py_round (fl_mul y (fl_of_int export_H)) - py_int (fl_mul y (fl_of_int export_H))\<bar> \<le> 1
   \<and> slice_crops_fl 100 (plan_slices [rn (1 / 10000)]) = [(0, 100)]"
proof -
  have "fl_of_int export_H = of_int export_H" if "0 \<le> export_H \<and> export_H < 2 ^ 53"
    using that by (simp add: fl_of_int_def rn_of_int)
  moreover have "\<bar>py_int (fl_mul y (fl_of_int export_H)) - py_int (y * of_int export_H)\<bar> \<le> 1"
    if "0 \<le> y \<and> y \<le> 1 \<and> 0 \<le> export_H \<and> export_H < 2 ^ 53"
    using that by (intro row_near_exact) simp_all
  moreover have "slice_crops_fl 100 (plan_slices [rn (1 / 10000)]) = [(0, 100)]"
    using crops_cut_tiny by blast
  ultimately show ?thesis
    using slice_crops_fl_filter [of export_H ranges]
      py_round_py_int [of "fl_mul y (fl_of_int export_H)"]
    by blast
qed

theorem slice_rows_truncated_witness:
  "slice_crops_fl 2420 (plan_slices [rn (23 / 2420)]) = [(0, 22), (22, 2420)]
   \<and> slice_crops_fl 2420 (plan_slices [rn (2418 / 2420)]) = [(0, 2418)]
   \<and> fl_of_int 2420 = 2420
   \<and> py_int (fl_mul (rn (23 / 2420)) (fl_of_int 2420)) = 22
   \<and> \<bar>22 - py_int (rn (23 / 2420) * of_int 2420)\<bar> \<le> 1
   \<and> slice_crops_fl 100 (plan_slices [rn (1 / 10000)]) = [(0, 100)]"
  using slice_rows_truncated [of 2420 "plan_slices [rn (23 / 2420)]" "rn (23 / 2420)"]
    crops_cut_row_23 crops_cut_row_2418
  by simp

text \<open>
  The rows are not round(fraction * raster height). For a cut at 0.26 on a 10-pixel
  raster the code cuts at row 2, where rounding 2.6 gives 3. For a click on row 23 of
  a 2420-row raster the stored fraction is the double nearest 23 / 2420, its product
  with 2420 is the double just below 23, and the code cuts at row 22.
\<close>

theorem slice_rows_not_rounded:
  "slice_crops_fl 10 (plan_slices [rn (26 / 100)]) = [(0, 2), (2, 10)]
   \<and> py_round (fl_mul (rn (26 / 100)) (fl_of_int 10)) = 3
   \<and> slice_crops_fl 2420 (plan_slices [rn (23 / 2420)]) = [(0, 22), (22, 2420)]
   \<and> py_round (fl_mul (rn (23 / 2420)) (fl_of_int 2420)) = 23"
  using crops_cut_026 crops_cut_row_23 by blast

section \<open>Properties of the export\<close>

lemma effective_dpi_over:
  "250000000 < total_export_px w h d \<Longrightarrow>
   effective_dpi w h d =
     max 72 (py_int (of_int d * sqrt (250000000 / of_int (total_export_px w h d))))"
  by (simp add: effective_dpi_def total_export_px_def Let_def)

lemma effective_dpi_within:
  "\<not> 250000000 < total_export_px w h d \<Longrightarrow> effective_dpi w h d = d"
  by (simp add: effective_dpi_def total_export_px_def Let_def)

text \<open>
  C10, as the code has it: when the requested raster exceeds 250,000,000 pixels the
  effective DPI is max(72, int(dpi * sqrt(250000000 / total))) and so at least 72,
  whatever the page size; when it does not, the effective DPI is the requested DPI
  unchanged.
\<close>

theorem effective_dpi_floor:
  "(250000000 < total_export_px page_w_pt page_h_pt dpi_value \<longrightarrow>
      effective_dpi page_w_pt page_h_pt dpi_value =
        max 72 (py_int (of_int dpi_value
                  * sqrt (250000000 / of_int (total_export_px page_w_pt page_h_pt dpi_value))))
      \<and> 72 \<le> effective_dpi page_w_pt page_h_pt dpi_value)
   \<and> (\<not> 250000000 < total_export_px page_w_pt page_h_pt dpi_value \<longrightarrow>
      effective_dpi page_w_pt page_h_pt dpi_value = dpi_value)"
  using effective_dpi_over [of page_w_pt page_h_pt dpi_value]
    effective_dpi_within [of page_w_pt page_h_pt dpi_value]
  by simp

theorem effective_dpi_floor_witness:
  "250000000 < total_export_px 7200 14400 300
   \<and> 72 \<le> effective_dpi 7200 14400 300
   \<and> \<not> 250000000 < total_export_px 7200 14400 71
   \<and> effective_dpi 7200 14400 71 = 71"
  using effective_dpi_floor [of 7200 14400 300] effective_dpi_floor [of 7200 14400 71]
  by (simp add: total_export_px_def py_int_def)

text \<open>
  An export below 72 DPI: on a page of 7200 by 14400 points a request for 71 DPI (a
  value the size-constrained search passes) stays under the ceiling and is used as it
  is.
\<close>

theorem effective_dpi_below_72:
  "total_export_px 7200 14400 71 = 100820000
   \<and> effective_dpi 7200 14400 71 = 71
   \<and> \<not> 72 \<le> effective_dpi 7200 14400 71"
  by (simp add: effective_dpi_def total_export_px_def py_int_def Let_def)

lemma sqrt_scale_le1:
  assumes "250000000 < T"
  shows "0 \<le> sqrt (250000000 / of_int T)" "sqrt (250000000 / of_int T) \<le> 1"
  using assms by simp_all

lemma effective_dpi_le_base:
  assumes over: "250000000 < total_export_px w h d" and "d \<le> base_dpi" and "72 \<le> base_dpi"
  shows "effective_dpi w h d \<le> base_dpi"
proof -
  let ?s = "sqrt (250000000 / of_int (total_export_px w h d))"
  have s: "0 \<le> ?s" "?s \<le> 1" using sqrt_scale_le1 [OF over] by simp_all
  have "of_int d * ?s \<le> of_int base_dpi"
  proof (cases "0 \<le> d")
    case True
    then have "of_int d * ?s \<le> of_int d * 1" using s by (intro mult_left_mono) simp_all
    then show ?thesis using assms(2) by simp
  next
    case False
    then have "of_int d * ?s \<le> 0" using s by (simp add: mult_nonpos_nonneg)
    then show ?thesis using assms(3) by simp
  qed
  then have "py_int (of_int d * ?s) \<le> base_dpi" by (rule py_int_le)
  then show ?thesis using assms(3) by (simp add: effective_dpi_over [OF over])
qed

lemma effective_dpi_square_bound:
  assumes over: "250000000 < total_export_px w h d"
    and unclamped: "72 \<le> py_int (of_int d * sqrt (250000000 / of_int (total_export_px w h d)))"
  shows "effective_dpi w h d * effective_dpi w h d * total_export_px w h d
           \<le> d * d * 250000000"
proof -
  let ?T = "total_export_px w h d"
  let ?s = "sqrt (250000000 / of_int ?T)"
  let ?k = "py_int (of_int d * ?s)"
  have k: "effective_dpi w h d = ?k" using unclamped by (simp add: effective_dpi_over [OF over])
  have Tpos: "0 < (of_int ?T :: real)" using over by simp
  have kx: "of_int ?k \<le> of_int d * ?s" and k0: "0 \<le> (of_int ?k :: real)"
    using py_int_ge_pos [of 72 "of_int d * ?s"] unclamped by simp_all
  have "(of_int ?k)\<^sup>2 \<le> (of_int d * ?s)\<^sup>2"
    using kx k0 by (intro power_mono) simp_all
  also have "\<dots> = (of_int d)\<^sup>2 * (250000000 / of_int ?T)"
    using Tpos by (simp add: power_mult_distrib)
  finally have "(of_int ?k)\<^sup>2 * of_int ?T \<le> (of_int d)\<^sup>2 * (250000000 :: real)"
    using Tpos by (simp add: field_simps)
  then have "(of_int (?k * ?k * ?T) :: real) \<le> of_int (d * d * 250000000)"
    by (simp add: power2_eq_square)
  then have "?k * ?k * ?T \<le> d * d * 250000000" by (simp only: of_int_le_iff)
  then show ?thesis by (simp only: k)
qed

lemma scaled_dim_close:
  assumes "0 \<le> n" and "\<bar>of_int n - (p::real) * of_int b / 72\<bar> \<le> 1" and "0 < k" and "k \<le> b"
  shows "\<bar>of_int (max 1 (py_int (of_int n * (of_int k / of_int b)))) - p * of_int k / 72\<bar> \<le> 2"
proof -
  define r :: real where "r = of_int k / of_int b"
  have bpos: "0 < (of_int b :: real)" using assms(3,4) by simp
  have r: "0 < r" "r \<le> 1" using assms(3,4) bpos by (simp_all add: r_def)
  have x0: "0 \<le> of_int n * r" using assms(1) r(1) by (intro mult_nonneg_nonneg) simp_all
  have "of_int n * r - p * of_int k / 72 = (of_int n - p * of_int b / 72) * r"
    using bpos by (simp add: r_def field_simps)
  then have "\<bar>of_int n * r - p * of_int k / 72\<bar> = \<bar>of_int n - p * of_int b / 72\<bar> * r"
    using r(1) by (simp add: abs_mult)
  also have "\<dots> \<le> 1 * 1" using assms(2) r by (intro mult_mono) simp_all
  finally have a: "\<bar>of_int n * r - p * of_int k / 72\<bar> \<le> 1" by simp
  have "\<bar>of_int (max 1 (py_int (of_int n * r))) - of_int n * r\<bar> \<le> 1"
    using x0 by (simp add: py_int_nonneg max_def) linarith
  then have "\<bar>of_int (max 1 (py_int (of_int n * r))) - p * of_int k / 72\<bar> \<le> 2"
    using a by linarith
  then show ?thesis by (simp only: r_def)
qed

lemma crop_rows_close:
  assumes "0 \<le> H" and "0 \<le> (y0::real)" and "y0 \<le> y1"
  shows "\<bar>of_int (py_int (y1 * of_int H) - py_int (y0 * of_int H)) - (y1 - y0) * of_int H\<bar> < 1"
proof -
  have "0 \<le> y0 * of_int H" "0 \<le> y1 * of_int H" using assms by simp_all
  then show ?thesis by (simp add: py_int_nonneg algebra_simps) linarith
qed

lemma scaled_sqrt_eq:
  assumes "0 \<le> d" and "0 < T"
  shows "of_int d * sqrt (of_int M / of_int T) = sqrt (of_int (d * d * M) / of_int T)"
proof -
  have "sqrt (of_int (d * d * M) / of_int T) = sqrt ((of_int d)\<^sup>2 * (of_int M / of_int T))"
    by (simp add: power2_eq_square)
  also have "\<dots> = \<bar>of_int d\<bar> * sqrt (of_int M / of_int T)"
    by (simp only: real_sqrt_mult real_sqrt_abs)
  finally show ?thesis using assms(1) by simp
qed

lemma scaled_sqrt_ge:
  assumes "0 \<le> d" and "0 < T" and "0 \<le> n" and "n * n * T \<le> d * d * M"
  shows "of_int n \<le> of_int d * sqrt (of_int M / of_int T)"
proof -
  have "(of_int (n * n * T) :: real) \<le> of_int (d * d * M)"
    using assms(4) by (simp only: of_int_le_iff)
  then have "(of_int n)\<^sup>2 \<le> (of_int (d * d * M) / of_int T :: real)"
    using assms(2) by (simp add: field_simps power2_eq_square)
  then have "of_int n \<le> sqrt (of_int (d * d * M) / of_int T)"
    by (rule real_le_rsqrt)
  then show ?thesis by (simp only: scaled_sqrt_eq [OF assms(1,2)])
qed

lemma scaled_sqrt_less:
  assumes "0 \<le> d" and "0 < T" and "0 \<le> n" and "d * d * M < n * n * T"
  shows "of_int d * sqrt (of_int M / of_int T) < of_int n"
proof -
  have "(of_int (d * d * M) :: real) < of_int (n * n * T)"
    using assms(4) by (simp only: of_int_less_iff)
  then have "(of_int (d * d * M) / of_int T :: real) < (of_int n)\<^sup>2"
    using assms(2) by (simp add: field_simps power2_eq_square)
  then have "sqrt (of_int (d * d * M) / of_int T) < of_int n"
    using assms(3) by (intro real_less_lsqrt) simp_all
  then show ?thesis by (simp only: scaled_sqrt_eq [OF assms(1,2)])
qed

lemma py_int_scaled_sqrt:
  assumes "0 \<le> d" and "0 < T" and "0 \<le> n"
    and "n * n * T \<le> d * d * M" and "d * d * M < (n + 1) * (n + 1) * T"
  shows "py_int (of_int d * sqrt (of_int M / of_int T)) = n"
proof -
  let ?x = "of_int d * sqrt (of_int M / of_int T) :: real"
  have lo: "of_int n \<le> ?x" using assms(1,2,3,4) by (rule scaled_sqrt_ge)
  have hi: "?x < of_int (n + 1)"
    using assms(1,2) _ assms(5) by (rule scaled_sqrt_less) (use assms(3) in simp)
  have "0 \<le> ?x" using lo assms(3) by simp
  then have "py_int ?x = \<lfloor>?x\<rfloor>" by (rule py_int_nonneg)
  also have "\<dots> = n" using lo hi by (intro floor_unique) simp_all
  finally show ?thesis .
qed

lemma effective_dpi_111: "effective_dpi 7200 14400 300 = 111"
proof -
  have T: "total_export_px 7200 14400 300 = 1800000000"
    by (simp add: total_export_px_def py_int_def)
  have "py_int (of_int 300 * sqrt (of_int 250000000 / of_int 1800000000)) = 111"
    by (rule py_int_scaled_sqrt) simp_all
  then show ?thesis using effective_dpi_over [of 7200 14400 300] by (simp add: T)
qed

lemma effective_dpi_164: "effective_dpi 6100 7900 170 = 164"
proof -
  have T: "total_export_px 6100 7900 170 = 268626104"
    by (simp add: total_export_px_def py_int_def)
  have "py_int (of_int 170 * sqrt (of_int 250000000 / of_int 268626104)) = 164"
    by (rule py_int_scaled_sqrt) simp_all
  then show ?thesis using effective_dpi_over [of 6100 7900 170] by (simp add: T)
qed

lemma effective_dpi_clamped: "effective_dpi 18000 18000 120 = 72"
proof -
  have T: "total_export_px 18000 18000 120 = 900000000"
    by (simp add: total_export_px_def py_int_def)
  have "of_int 120 * sqrt (of_int 250000000 / of_int 900000000) < (of_int 72 :: real)"
    by (rule scaled_sqrt_less) simp_all
  then have "py_int (of_int 120 * sqrt (of_int 250000000 / of_int 900000000)) \<le> 72"
    by (intro py_int_le) simp
  then show ?thesis using effective_dpi_over [of 18000 18000 120] by (simp add: T)
qed

lemma export_image_close:
  assumes "0 \<le> fst base_img" and "0 \<le> snd base_img"
    and "\<bar>of_int (fst base_img) - (pw::real) * of_int b / 72\<bar> \<le> 1"
    and "\<bar>of_int (snd base_img) - (ph::real) * of_int b / 72\<bar> \<le> 1"
    and "0 < k" and "k \<le> b"
  shows "\<exists>W H. export_image base_img b k = Inr (W, H) \<and> 0 \<le> H
           \<and> \<bar>of_int W - pw * of_int k / 72\<bar> \<le> 2
           \<and> \<bar>of_int H - ph * of_int k / 72\<bar> \<le> 2"
proof (cases "k = b")
  case True
  then have "export_image base_img b k = Inr (fst base_img, snd base_img)"
    by (simp add: export_image_def)
  moreover have "\<bar>of_int (fst base_img) - pw * of_int k / 72\<bar> \<le> 2"
    using assms(3) True by simp
  moreover have "\<bar>of_int (snd base_img) - ph * of_int k / 72\<bar> \<le> 2"
    using assms(4) True by simp
  ultimately show ?thesis using assms(2) by blast
next
  case False
  let ?W = "max 1 (py_int (of_int (fst base_img) * (of_int k / of_int b)))"
  let ?H = "max 1 (py_int (of_int (snd base_img) * (of_int k / of_int b)))"
  have "b \<noteq> 0" using assms(5,6) by simp
  then have "export_image base_img b k = Inr (?W, ?H)"
    using False by (simp add: export_image_def Let_def)
  moreover have "\<bar>of_int ?W - pw * of_int k / 72\<bar> \<le> 2"
    using assms(1,3,5,6) by (rule scaled_dim_close)
  moreover have "\<bar>of_int ?H - ph * of_int k / 72\<bar> \<le> 2"
    using assms(2,4,5,6) by (rule scaled_dim_close)
  moreover have "0 \<le> ?H" by simp
  ultimately show ?thesis by blast
qed

lemma ranges_from_bounds:
  "sorted (start # ys) \<Longrightarrow> \<forall>y \<in> set (start # ys). y \<le> 1 \<Longrightarrow>
   \<forall>(a, b) \<in> set (ranges_from start ys). start \<le> a \<and> a \<le> b \<and> b \<le> 1"
proof (induction ys arbitrary: start)
  case Nil
  then show ?case by simp
next
  case (Cons y ys)
  then have "\<forall>(a, b) \<in> set (ranges_from y ys). y \<le> a \<and> a \<le> b \<and> b \<le> 1"
    by (intro Cons.IH) simp_all
  then show ?case using Cons.prems by fastforce
qed

lemma plan_slices_bounds:
  "\<forall>(y0, y1) \<in> set (plan_slices cuts). 0 \<le> y0 \<and> y0 \<le> y1 \<and> y1 \<le> 1"
  unfolding plan_slices_def Let_def
  using plan_cuts_sorted [of cuts] by (intro ranges_from_bounds) blast+

lemma page_width_close:
  assumes "72 \<le> k" and "\<bar>of_int W - (pw::real) * of_int k / 72\<bar> \<le> 2"
  shows "\<bar>of_int W * (72 / of_int k) - pw\<bar> \<le> 2"
proof -
  define r :: real where "r = 72 / of_int k"
  have r: "0 < r" "r \<le> 1" using assms(1) by (simp_all add: r_def)
  have "of_int W * r - pw = (of_int W - pw * of_int k / 72) * r"
    using assms(1) by (simp add: r_def field_simps)
  then have "\<bar>of_int W * r - pw\<bar> = \<bar>of_int W - pw * of_int k / 72\<bar> * r"
    using r(1) by (simp add: abs_mult)
  also have "\<dots> \<le> 2 * 1" using assms(2) r by (intro mult_mono) simp_all
  finally show ?thesis by (simp add: r_def)
qed

lemma page_height_close:
  assumes "72 \<le> k" and "0 \<le> H" and "\<bar>of_int H - (ph::real) * of_int k / 72\<bar> \<le> 2"
    and "0 \<le> y0" and "y0 \<le> y1" and "y1 \<le> 1"
  shows "\<bar>of_int (py_int (y1 * of_int H) - py_int (y0 * of_int H)) * (72 / of_int k)
           - (y1 - y0) * ph\<bar> < 3"
proof -
  define r :: real where "r = 72 / of_int k"
  define c :: real where "c = of_int (py_int (y1 * of_int H) - py_int (y0 * of_int H))"
  have r: "0 < r" "r \<le> 1" using assms(1) by (simp_all add: r_def)
  have c1: "\<bar>c - (y1 - y0) * of_int H\<bar> < 1"
    unfolding c_def using assms(2,4,5) by (rule crop_rows_close)
  have "\<bar>(y1 - y0) * (of_int H - ph * of_int k / 72)\<bar> = (y1 - y0) * \<bar>of_int H - ph * of_int k / 72\<bar>"
    using assms(5) by (simp add: abs_mult)
  also have "\<dots> \<le> 1 * 2" using assms(3-6) by (intro mult_mono) simp_all
  finally have c2: "\<bar>(y1 - y0) * of_int H - (y1 - y0) * ph * of_int k / 72\<bar> \<le> 2"
    by (simp add: algebra_simps)
  have c3: "\<bar>c - (y1 - y0) * ph * of_int k / 72\<bar> < 3" using c1 c2 by linarith
  have "c * r - (y1 - y0) * ph = (c - (y1 - y0) * ph * of_int k / 72) * r"
    using assms(1) by (simp add: r_def field_simps)
  then have "\<bar>c * r - (y1 - y0) * ph\<bar> = \<bar>c - (y1 - y0) * ph * of_int k / 72\<bar> * r"
    using r(1) by (simp add: abs_mult)
  also have "\<dots> \<le> \<bar>c - (y1 - y0) * ph * of_int k / 72\<bar> * 1"
    using r by (intro mult_left_mono) simp_all
  finally have "\<bar>c * r - (y1 - y0) * ph\<bar> < 3" using c3 by simp
  then show ?thesis by (simp only: r_def c_def)
qed

text \<open>With positive DPIs no division by zero is reached: the export returns.\<close>

lemma effective_dpi_pos: "0 < d \<Longrightarrow> 0 < effective_dpi w h d"
  using effective_dpi_over [of w h d] effective_dpi_within [of w h d]
  by (cases "250000000 < total_export_px w h d") simp_all

lemma export_with_dpi_returns:
  assumes "0 < base_dpi" and "0 < dpi_request"
  shows "\<exists>out. export_with_dpi page_w_pt page_h_pt base_dpi base_img ranges dpi_request = Inr out"
proof -
  have "0 < effective_dpi page_w_pt page_h_pt dpi_request"
    using assms(2) by (rule effective_dpi_pos)
  then show ?thesis
    using assms(1)
    by (cases base_img) (auto simp: export_with_dpi_def export_image_def Let_def split: sum.splits)
qed

lemma export_with_dpi_Inr:
  assumes "export_image base_img base_dpi (effective_dpi pw ph d) = Inr (W, H)"
    and "effective_dpi pw ph d \<noteq> 0"
  shows "export_with_dpi pw ph base_dpi base_img ranges d =
           Inr \<lparr>dpi_used = effective_dpi pw ph d, export_size = (W, H),
                crops = slice_crops H ranges,
                pages_pt = map (\<lambda>(y0_px, y1_px).
                    (of_int W * (72 / of_int (effective_dpi pw ph d)),
                     of_int (y1_px - y0_px) * (72 / of_int (effective_dpi pw ph d))))
                  (slice_crops H ranges)\<rparr>"
  using assms
  by (simp add: export_with_dpi_def Let_def build_output_pdf_from_slices_def case_prod_unfold o_def)

text \<open>
  C1, as the code has it. Take an export request whose raster exceeds 250,000,000
  pixels, at a DPI not above the base DPI (itself at least 72), with a base raster
  within one pixel of page size * base DPI / 72. Then the export succeeds and
  \<^item> the effective DPI is the reduced value max(72, int(dpi * sqrt(250000000 / total))),
    never below 72; the raster that is cropped is the base raster resized by
    effective DPI / base DPI; and the effective DPI is the DPI of the page-size
    computation: every page measures crop pixels * 72 / effective DPI;
  \<^item> when the square-root-scaled DPI is not below 72, the requested pixel count scaled
    by (effective DPI / requested DPI) squared is at most 250,000,000;
  \<^item> every output page is within 2 points of the page width and within 3 points of
    its share (y1 - y0) of the page height.
  Nothing is stated about the pixel count of the raster that is cropped.
\<close>

theorem export_over_ceiling:
  assumes over: "250000000 < total_export_px page_w_pt page_h_pt dpi_request"
    and le_base: "dpi_request \<le> base_dpi" and base72: "72 \<le> base_dpi"
    and img0: "0 \<le> fst base_img" "0 \<le> snd base_img"
    and imgw: "\<bar>of_int (fst base_img) - page_w_pt * of_int base_dpi / 72\<bar> \<le> 1"
    and imgh: "\<bar>of_int (snd base_img) - page_h_pt * of_int base_dpi / 72\<bar> \<le> 1"
  shows "\<exists>out.
      export_with_dpi page_w_pt page_h_pt base_dpi base_img (plan_slices cuts) dpi_request = Inr out
    \<and> dpi_used out = effective_dpi page_w_pt page_h_pt dpi_request
    \<and> 72 \<le> dpi_used out
    \<and> (72 \<le> py_int (of_int dpi_request
                * sqrt (250000000 / of_int (total_export_px page_w_pt page_h_pt dpi_request))) \<longrightarrow>
         dpi_used out * dpi_used out * total_export_px page_w_pt page_h_pt dpi_request
           \<le> dpi_request * dpi_request * 250000000)
    \<and> export_image base_img base_dpi (dpi_used out) = Inr (export_size out)
    \<and> crops out = slice_crops (snd (export_size out)) (plan_slices cuts)
    \<and> pages_pt out =
         map (\<lambda>(y0_px, y1_px).
                (of_int (fst (export_size out)) * (72 / of_int (dpi_used out)),
                 of_int (y1_px - y0_px) * (72 / of_int (dpi_used out))))
           (crops out)
    \<and> list_all2 (\<lambda>(y0, y1) (out_w_pt, out_h_pt).
           \<bar>out_w_pt - page_w_pt\<bar> \<le> 2 \<and> \<bar>out_h_pt - (y1 - y0) * page_h_pt\<bar> < 3)
         (filter (\<lambda>(y0, y1). \<not> (y1 - y0) * of_int (snd (export_size out)) < 2) (plan_slices cuts))
         (pages_pt out)"
proof -
  let ?k = "effective_dpi page_w_pt page_h_pt dpi_request"
  have k72: "72 \<le> ?k" by (simp add: effective_dpi_over [OF over])
  have kb: "?k \<le> base_dpi" using over le_base base72 by (rule effective_dpi_le_base)
  have kpos: "0 < ?k" using k72 by simp
  obtain W H where img: "export_image base_img base_dpi ?k = Inr (W, H)" and H0: "0 \<le> H"
    and Wc: "\<bar>of_int W - page_w_pt * of_int ?k / 72\<bar> \<le> 2"
    and Hc: "\<bar>of_int H - page_h_pt * of_int ?k / 72\<bar> \<le> 2"
    using export_image_close [OF img0 imgw imgh kpos kb] by blast
  let ?page = "\<lambda>(y0_px, y1_px).
      (of_int W * (72 / of_int ?k), of_int (y1_px - y0_px) * (72 / of_int ?k))"
  let ?out = "\<lparr>dpi_used = ?k, export_size = (W, H),
                crops = slice_crops H (plan_slices cuts),
                pages_pt = map ?page (slice_crops H (plan_slices cuts))\<rparr>"
  have ex: "export_with_dpi page_w_pt page_h_pt base_dpi base_img (plan_slices cuts) dpi_request
              = Inr ?out"
    using img kpos by (intro export_with_dpi_Inr) simp_all
  have sq: "?k * ?k * total_export_px page_w_pt page_h_pt dpi_request
              \<le> dpi_request * dpi_request * 250000000"
    if "72 \<le> py_int (of_int dpi_request
                * sqrt (250000000 / of_int (total_export_px page_w_pt page_h_pt dpi_request)))"
    using over that by (rule effective_dpi_square_bound)
  have wclose: "\<bar>of_int W * (72 / of_int ?k) - page_w_pt\<bar> \<le> 2"
    using k72 Wc by (rule page_width_close)
  have hclose: "\<bar>of_int (py_int (y1 * of_int H) - py_int (y0 * of_int H)) * (72 / of_int ?k)
                   - (y1 - y0) * page_h_pt\<bar> < 3"
    if "(y0, y1) \<in> set (plan_slices cuts)" for y0 y1
  proof -
    have "0 \<le> y0" "y0 \<le> y1" "y1 \<le> 1" using plan_slices_bounds [of cuts] that by auto
    with k72 H0 Hc show ?thesis by (intro page_height_close)
  qed
  have pages: "list_all2 (\<lambda>(y0, y1) (out_w_pt, out_h_pt).
           \<bar>out_w_pt - page_w_pt\<bar> \<le> 2 \<and> \<bar>out_h_pt - (y1 - y0) * page_h_pt\<bar> < 3)
         (filter (\<lambda>(y0, y1). \<not> (y1 - y0) * of_int H < 2) (plan_slices cuts))
         (map ?page (slice_crops H (plan_slices cuts)))"
    unfolding slice_crops_filter list.rel_map
    by (rule list.rel_refl_strong) (use wclose hclose in auto)
  show ?thesis
  proof (intro exI [of _ ?out] conjI impI)
    show "export_with_dpi page_w_pt page_h_pt base_dpi base_img (plan_slices cuts) dpi_request
            = Inr ?out"
      by (rule ex)
    show "dpi_used ?out = ?k" by simp
    show "72 \<le> dpi_used ?out" using k72 by simp
    show "dpi_used ?out * dpi_used ?out * total_export_px page_w_pt page_h_pt dpi_request
            \<le> dpi_request * dpi_request * 250000000"
      if "72 \<le> py_int (of_int dpi_request
                * sqrt (250000000 / of_int (total_export_px page_w_pt page_h_pt dpi_request)))"
      using sq [OF that] by simp
    show "export_image base_img base_dpi (dpi_used ?out) = Inr (export_size ?out)"
      using img by simp
    show "crops ?out = slice_crops (snd (export_size ?out)) (plan_slices cuts)" by simp
    show "pages_pt ?out =
         map (\<lambda>(y0_px, y1_px).
                (of_int (fst (export_size ?out)) * (72 / of_int (dpi_used ?out)),
                 of_int (y1_px - y0_px) * (72 / of_int (dpi_used ?out))))
           (crops ?out)"
      by simp
    show "list_all2 (\<lambda>(y0, y1) (out_w_pt, out_h_pt).
           \<bar>out_w_pt - page_w_pt\<bar> \<le> 2 \<and> \<bar>out_h_pt - (y1 - y0) * page_h_pt\<bar> < 3)
         (filter (\<lambda>(y0, y1). \<not> (y1 - y0) * of_int (snd (export_size ?out)) < 2) (plan_slices cuts))
         (pages_pt ?out)"
      using pages by simp
  qed
qed

lemma export_111:
  "export_with_dpi 7200 14400 300 (30000, 60000) (plan_slices [1 / 2]) 300 =
     Inr \<lparr>dpi_used = 111, export_size = (11100, 22200),
          crops = [(0, 11100), (11100, 22200)],
          pages_pt = [(7200, 7200), (7200, 7200)]\<rparr>"
  by (simp add: export_with_dpi_def effective_dpi_111 export_image_def
      build_output_pdf_from_slices_def plan_slices_def py_int_def Let_def)

theorem export_over_ceiling_witness:
  "250000000 < total_export_px 7200 14400 300
   \<and> export_with_dpi 7200 14400 300 (30000, 60000) (plan_slices [1 / 2]) 300 =
       Inr \<lparr>dpi_used = 111, export_size = (11100, 22200),
            crops = [(0, 11100), (11100, 22200)],
            pages_pt = [(7200, 7200), (7200, 7200)]\<rparr>
   \<and> effective_dpi 7200 14400 300 = 111
   \<and> (111::int) * 111 * total_export_px 7200 14400 300 \<le> 300 * 300 * 250000000"
proof -
  have T: "total_export_px 7200 14400 300 = 1800000000"
    by (simp add: total_export_px_def py_int_def)
  have k: "py_int (of_int 300 * sqrt (of_int 250000000 / of_int 1800000000)) = 111"
    by (rule py_int_scaled_sqrt) simp_all
  show ?thesis
    using export_over_ceiling [of 7200 14400 300 300 "(30000, 60000)" "[1 / 2]"] T k export_111
    by (simp add: effective_dpi_111)
qed

text \<open>
  The raster can exceed the ceiling, in two ways. Below 72 DPI the ceiling is not
  enforced: a page of 18000 by 18000 points requested at 120 DPI is exported at 72 DPI
  as a raster of 18000 by 18000 = 324,000,000 pixels. And above 72 DPI the scale is
  computed from the truncated sizes 14402 by 18652 of a page of 6100 by 7900 points at
  170 DPI, while the raster rendered at that DPI is 14403 by 18653: it is resized to
  13894 by 17994 = 250,008,636 pixels at 164 DPI.
\<close>

theorem export_exceeds_ceiling:
  "250000000 < total_export_px 18000 18000 120
   \<and> export_with_dpi 18000 18000 120 (30000, 30000) (plan_slices []) 120 =
       Inr \<lparr>dpi_used = 72, export_size = (18000, 18000),
            crops = [(0, 18000)], pages_pt = [(18000, 18000)]\<rparr>
   \<and> \<not> 18000 * 18000 \<le> (250000000::int)
   \<and> 250000000 < total_export_px 6100 7900 170
   \<and> export_with_dpi 6100 7900 170 (14403, 18653) (plan_slices []) 170 =
       Inr \<lparr>dpi_used = 164, export_size = (13894, 17994),
            crops = [(0, 17994)], pages_pt = [(250092 / 41, 323892 / 41)]\<rparr>
   \<and> \<not> 13894 * 17994 \<le> (250000000::int)"
  by (simp add: export_with_dpi_def effective_dpi_clamped effective_dpi_164 export_image_def
      build_output_pdf_from_slices_def plan_slices_def py_int_def total_export_px_def Let_def)

section \<open>Properties of the click handler\<close>

lemma foldl_keep_cut:
  "acc \<noteq> [] \<Longrightarrow> foldl (keep_cut dh) acc xs = acc @ kept_after dh (last acc) xs"
  by (induction xs arbitrary: acc) (simp_all add: keep_cut_def)

lemma debounce_Cons: "debounce dh (x # xs) = x # kept_after dh x xs"
  by (simp add: debounce_def foldl_keep_cut keep_cut_def)

lemma debounce_Nil: "debounce dh [] = []"
  by (simp add: debounce_def)

lemma kept_after_idem: "kept_after dh p (kept_after dh p xs) = kept_after dh p xs"
  by (induction xs arbitrary: p) simp_all

lemma set_kept_after: "set (kept_after dh p xs) \<subseteq> set xs"
  by (induction xs arbitrary: p) auto

lemma sorted_kept_after: "sorted xs \<Longrightarrow> sorted (kept_after dh p xs)"
proof (induction xs arbitrary: p)
  case Nil
  then show ?case by simp
next
  case (Cons x xs)
  then show ?case using set_kept_after [of dh x xs] by auto
qed

lemma insort_least: "\<forall>y \<in> set ys. x \<le> y \<Longrightarrow> insort x ys = x # ys"
  by (cases ys) simp_all

lemma kept_after_insort_dropped:
  assumes "\<forall>y \<in> set xs. x \<le> y" and "\<not> \<bar>x * of_int dh - p * of_int dh\<bar> > 12"
  shows "kept_after dh p (insort x (kept_after dh p xs)) = kept_after dh p xs"
proof -
  have "\<forall>y \<in> set (kept_after dh p xs). x \<le> y"
    using assms(1) set_kept_after [of dh p xs] by auto
  then have "insort x (kept_after dh p xs) = x # kept_after dh p xs"
    by (rule insort_least)
  then show ?thesis using assms(2) by (simp add: kept_after_idem)
qed

lemma kept_after_insort_member:
  "sorted xs \<Longrightarrow> c \<in> set xs \<Longrightarrow>
   kept_after dh p (insort c (kept_after dh p xs)) = kept_after dh p xs"
proof (induction xs arbitrary: p)
  case Nil
  then show ?case by simp
next
  case (Cons x xs)
  have le: "\<forall>y \<in> set xs. x \<le> y" and sx: "sorted xs"
    using Cons.prems(1) by auto
  show ?case
  proof (cases "\<bar>x * of_int dh - p * of_int dh\<bar> > 12")
    case far: True
    show ?thesis
    proof (cases "c = x")
      case True
      then show ?thesis using far by (simp add: kept_after_idem)
    next
      case False
      then have cin: "c \<in> set xs" using Cons.prems(2) by simp
      then have "x < c" using le False by fastforce
      then show ?thesis using far Cons.IH [OF sx cin] by simp
    qed
  next
    case near: False
    show ?thesis
    proof (cases "c \<in> set xs")
      case True
      then show ?thesis using near Cons.IH [OF sx True] by simp
    next
      case False
      then have "c = x" using Cons.prems(2) by simp
      then show ?thesis using near kept_after_insort_dropped [OF le near] by simp
    qed
  qed
qed

lemma sort_snoc_sorted: "sorted ys \<Longrightarrow> sort (ys @ [c]) = insort c ys"
proof (induction ys)
  case Nil
  then show ?case by simp
next
  case (Cons y ys)
  then have "sort ((y # ys) @ [c]) = insort y (insort c ys)" by simp
  also have "\<dots> = insort c (insort y ys)" by (rule insort_left_comm)
  also have "insort y ys = y # ys" using Cons.prems by (simp add: insort_least)
  finally show ?case .
qed

lemma debounce_insort_member:
  assumes "sorted xs" and "c \<in> set xs"
  shows "debounce dh (insort c (debounce dh xs)) = debounce dh xs"
proof (cases xs)
  case Nil
  then show ?thesis using assms by simp
next
  case (Cons x xs')
  have le: "\<forall>y \<in> set xs'. x \<le> y" and sx: "sorted xs'"
    using assms(1) Cons by auto
  show ?thesis
  proof (cases "c = x")
    case True
    then show ?thesis using Cons by (simp add: debounce_Cons kept_after_idem)
  next
    case False
    then have cin: "c \<in> set xs'" using assms(2) Cons by simp
    then have "x < c" using le False by fastforce
    then show ?thesis
      using Cons kept_after_insort_member [OF sx cin] by (simp add: debounce_Cons)
  qed
qed

lemma sorted_debounce: "sorted xs \<Longrightarrow> sorted (debounce dh xs)"
proof (cases xs)
  case Nil
  then show ?thesis by (simp add: debounce_Nil)
next
  case (Cons x xs')
  assume "sorted xs"
  then show ?thesis
    using Cons sorted_kept_after [of xs' dh x] set_kept_after [of dh x xs']
    by (auto simp: debounce_Cons)
qed

text \<open>
  C5: merging is idempotent. Inserting the same fraction again into the result of a
  merge, at the same display height, and running the greedy pass (gap 12 display
  pixels) returns that result unchanged, for every list of cuts.
\<close>

theorem merge_cut_idempotent:
  "merge_cut display_height (merge_cut display_height S c) c = merge_cut display_height S c"
proof -
  let ?xs = "sort (S @ [c])"
  have s: "sorted ?xs" and m: "c \<in> set ?xs" by simp_all
  have "sort (debounce display_height ?xs @ [c]) = insort c (debounce display_height ?xs)"
    using sorted_debounce [OF s] by (rule sort_snoc_sorted)
  then show ?thesis
    using debounce_insort_member [OF s m] by (simp add: merge_cut_def)
qed

text \<open>A preview of positive width is shown at a scale in (0, 1].\<close>

lemma preview_scale_pos:
  assumes "0 < W"
  shows "\<exists>display_width scale display_height.
           preview_geometry W H = Inr (display_width, scale, display_height)
         \<and> 0 < scale \<and> scale \<le> 1"
  using assms by (simp add: preview_geometry_def Let_def min_def)

text \<open>
  C4: with a non-zero scale and a positive page height the mapper returns
  y_true = round(click_y / scale) and fraction = y_true / H. If 0 < y_true < H,
  fraction * H is within half a pixel (so within one pixel) of click_y / scale, and a
  click that is not a repeat of the last one stores exactly this fraction: the handler
  records the click and replaces the cuts by the merge of the old cuts with the
  fraction (the fraction alone when there were no cuts). If y_true is not strictly
  between 0 and H, the handler leaves the cuts as they were. A repeat of the last
  click changes nothing.
\<close>

theorem map_click_recovers:
  assumes "scale \<noteq> 0" and "0 < H"
  shows "(let y_true = py_round (of_int click_y / scale);
              fraction = of_int y_true / of_int H
          in map_click click_y scale H = Inr (y_true, fraction)
           \<and> (0 < y_true \<and> y_true < H \<longrightarrow>
                \<bar>fraction * of_int H - of_int click_y / scale\<bar> \<le> 1 / 2)
           \<and> (0 < y_true \<and> y_true < H \<and> last_click st \<noteq> Some (click_x, click_y) \<longrightarrow>
                on_click scale display_height H st (click_x, click_y) =
                  Inr (st\<lparr>last_click := Some (click_x, click_y),
                          cuts_y := merge_cut display_height (cuts_y st) fraction\<rparr>)
                \<and> (cuts_y st = [] \<longrightarrow>
                     merge_cut display_height (cuts_y st) fraction = [fraction]))
           \<and> (\<not> (0 < y_true \<and> y_true < H) \<longrightarrow>
                (\<exists>st'. on_click scale display_height H st (click_x, click_y) = Inr st'
                       \<and> cuts_y st' = cuts_y st))
           \<and> (last_click st = Some (click_x, click_y) \<longrightarrow>
                on_click scale display_height H st (click_x, click_y) = Inr st))"
proof -
  let ?y = "py_round (of_int click_y / scale)"
  let ?f = "of_int ?y / of_int H :: real"
  have m: "map_click click_y scale H = Inr (?y, ?f)"
    using assms by (simp add: map_click_def Let_def)
  have r: "\<bar>?f * of_int H - of_int click_y / scale\<bar> \<le> 1 / 2"
    using assms(2) py_round_near [of "of_int click_y / scale"] by simp
  have a: "on_click scale display_height H st (click_x, click_y) =
             Inr (st\<lparr>last_click := Some (click_x, click_y),
                     cuts_y := merge_cut display_height (cuts_y st) ?f\<rparr>)"
    if "0 < ?y \<and> ?y < H \<and> last_click st \<noteq> Some (click_x, click_y)"
    using that m by (simp add: on_click_def)
  have e: "merge_cut display_height (cuts_y st) ?f = [?f]" if "cuts_y st = []"
    using that by (simp add: merge_cut_def debounce_def keep_cut_def)
  have i: "\<exists>st'. on_click scale display_height H st (click_x, click_y) = Inr st'
                \<and> cuts_y st' = cuts_y st"
    if "\<not> (0 < ?y \<and> ?y < H)"
    using that m by (auto simp: on_click_def)
  have rep: "on_click scale display_height H st (click_x, click_y) = Inr st"
    if "last_click st = Some (click_x, click_y)"
    using that by (simp add: on_click_def)
  show ?thesis unfolding Let_def using m r a e i rep by blast
qed

theorem map_click_recovers_witness:
  "map_click 300 (1 / 2) 1000 = Inr (600, 6 / 10)
   \<and> \<bar>6 / 10 * 1000 - 300 / (1 / 2) :: real\<bar> \<le> 1 / 2
   \<and> on_click (1 / 2) 500 1000 \<lparr>cuts_y = [3 / 10], last_click = None\<rparr> (5, 300) =
       Inr \<lparr>cuts_y = [3 / 10, 6 / 10], last_click = Some (5, 300)\<rparr>
   \<and> on_click (1 / 2) 500 1000 \<lparr>cuts_y = [], last_click = None\<rparr> (5, 300) =
       Inr \<lparr>cuts_y = [6 / 10], last_click = Some (5, 300)\<rparr>
   \<and> map_click 700 (1 / 2) 1000 = Inr (1400, 14 / 10)
   \<and> (\<exists>st'. on_click (1 / 2) 500 1000 \<lparr>cuts_y = [3 / 10], last_click = None\<rparr> (5, 700) = Inr st'
            \<and> cuts_y st' = [3 / 10])
   \<and> on_click (1 / 2) 500 1000 \<lparr>cuts_y = [3 / 10], last_click = Some (5, 300)\<rparr> (5, 300) =
       Inr \<lparr>cuts_y = [3 / 10], last_click = Some (5, 300)\<rparr>"
proof -
  have a: "py_round (of_int 300 / (1 / 2)) = 600" "py_round (of_int 700 / (1 / 2)) = 1400"
    by (simp_all add: py_round_def)
  have b: "merge_cut 500 [3 / 10] (6 / 10) = [3 / 10, 6 / 10]"
    by (simp add: merge_cut_def debounce_def keep_cut_def)
  show ?thesis
    using a b
      map_click_recovers [of "1 / 2" 1000 300 "\<lparr>cuts_y = [3 / 10], last_click = None\<rparr>" 5 500]
      map_click_recovers [of "1 / 2" 1000 300 "\<lparr>cuts_y = [], last_click = None\<rparr>" 5 500]
      map_click_recovers [of "1 / 2" 1000 700 "\<lparr>cuts_y = [3 / 10], last_click = None\<rparr>" 5 500]
      map_click_recovers [of "1 / 2" 1000 300 "\<lparr>cuts_y = [3 / 10], last_click = Some (5, 300)\<rparr>" 5 500]
    by (simp add: Let_def)
qed

section \<open>Properties of the size-constrained export\<close>

lemma budget_search_reached:
  "budget_search export_len dpi q = budget_loop export_len (reached export_len dpi q 0)"
  by (simp add: budget_search_def reached_def tries_def call_at_def size_after_def)

lemma retry_reached:
  "retry export_len (reached export_len dpi q n) = reached export_len dpi q (Suc n)"
  by (simp add: retry_def reached_def tries_def call_at_def size_after_def Let_def)

lemma budget_loop_reached:
  assumes "s = reached export_len dpi q n"
  shows "\<exists>m\<ge>n. budget_loop export_len s = reached export_len dpi q m
           \<and> (\<not> over_target (reached export_len dpi q m) \<or> stalled (reached export_len dpi q m))
           \<and> (\<forall>i. n \<le> i \<and> i < m \<longrightarrow>
                over_target (reached export_len dpi q i) \<and> \<not> stalled (reached export_len dpi q i))"
  using assms
proof (induction export_len s arbitrary: n rule: budget_loop.induct)
  case (1 export_len s)
  show ?case
  proof (cases "over_target s \<and> \<not> stalled s")
    case True
    have r: "retry export_len s = reached export_len dpi q (Suc n)"
      using "1.prems" by (simp add: retry_reached)
    obtain m where m: "Suc n \<le> m"
      "budget_loop export_len (retry export_len s) = reached export_len dpi q m"
      "\<not> over_target (reached export_len dpi q m) \<or> stalled (reached export_len dpi q m)"
      "\<forall>i. Suc n \<le> i \<and> i < m \<longrightarrow>
         over_target (reached export_len dpi q i) \<and> \<not> stalled (reached export_len dpi q i)"
      using "1.IH" [OF _ _ r] True by blast
    have "budget_loop export_len s = reached export_len dpi q m"
      using True m(2) by (subst budget_loop.simps) simp
    moreover have "\<forall>i. n \<le> i \<and> i < m \<longrightarrow>
         over_target (reached export_len dpi q i) \<and> \<not> stalled (reached export_len dpi q i)"
    proof (intro allI impI)
      fix i assume i: "n \<le> i \<and> i < m"
      show "over_target (reached export_len dpi q i) \<and> \<not> stalled (reached export_len dpi q i)"
      proof (cases "i = n")
        case True
        then show ?thesis using \<open>over_target s \<and> \<not> stalled s\<close> "1.prems" by simp
      next
        case False
        then show ?thesis using i m(4) by simp
      qed
    qed
    ultimately show ?thesis using m(1,3) by (intro exI [of _ m]) simp
  next
    case False
    then have "budget_loop export_len s = s" by (subst budget_loop.simps) auto
    then show ?thesis using False "1.prems" by (intro exI [of _ n]) auto
  qed
qed

lemma next_dpi_ge: "10 \<le> next_dpi d"
  by (simp add: next_dpi_def)

lemma next_dpi_le: "10 \<le> d \<Longrightarrow> next_dpi d \<le> d"
  using next_dpi_floor [of d] next_dpi_less [of d] by (cases "d = 10") auto

lemma next_q_ge: "30 \<le> next_q q"
  by (simp add: next_q_def)

lemma next_q_le: "30 \<le> q \<Longrightarrow> next_q q \<le> q"
  by (simp add: next_q_def)

lemma next_q_le_85: "q \<le> 85 \<Longrightarrow> next_q q \<le> 85"
  by (simp add: next_q_def)

lemma funpow_lower: "(\<And>x. (c::int) \<le> f x) \<Longrightarrow> c \<le> x \<Longrightarrow> c \<le> (f ^^ n) x"
  by (induction n) simp_all

lemma funpow_upper: "(\<And>x. x \<le> (c::int) \<Longrightarrow> f x \<le> c) \<Longrightarrow> x \<le> c \<Longrightarrow> (f ^^ n) x \<le> c"
  by (induction n) simp_all

lemma funpow_antimono:
  assumes "\<And>x. (c::int) \<le> f x" and "\<And>x. c \<le> x \<Longrightarrow> f x \<le> x" and "c \<le> x" and "i \<le> j"
  shows "(f ^^ j) x \<le> (f ^^ i) x"
  using assms(4)
proof (induction j)
  case 0
  then show ?case by simp
next
  case (Suc j)
  show ?case
  proof (cases "i = Suc j")
    case True
    then show ?thesis by simp
  next
    case False
    then have "i \<le> j" using Suc.prems by simp
    then have "(f ^^ j) x \<le> (f ^^ i) x" by (rule Suc.IH)
    moreover have "f ((f ^^ j) x) \<le> (f ^^ j) x"
      using assms(1,3) by (intro assms(2) funpow_lower)
    ultimately show ?thesis by simp
  qed
qed

lemma funpow_fixed: "f x = x \<Longrightarrow> (f ^^ n) x = x"
  by (induction n) simp_all

lemma dpi_stable: "10 \<le> d \<Longrightarrow> dpi_scalings d \<le> n \<Longrightarrow> (next_dpi ^^ n) d = 10"
proof (induction d arbitrary: n rule: dpi_scalings.induct)
  case (1 d)
  show ?case
  proof (cases "d \<le> 10")
    case True
    then have "d = 10" using "1.prems"(1) by simp
    then show ?thesis using next_dpi_floor [of 10] by (simp add: funpow_fixed)
  next
    case False
    then have "Suc (dpi_scalings (next_dpi d)) \<le> n"
      using "1.prems"(2) by (subst (asm) dpi_scalings.simps) simp
    then obtain n' where n: "n = Suc n'" and le: "dpi_scalings (next_dpi d) \<le> n'"
      by (cases n) simp_all
    have "(next_dpi ^^ n') (next_dpi d) = 10"
      using False next_dpi_ge le by (intro "1.IH") simp_all
    then show ?thesis by (simp add: n funpow_swap1)
  qed
qed

lemma q_stable: "30 \<le> q \<Longrightarrow> quality_steps q \<le> n \<Longrightarrow> (next_q ^^ n) q = 30"
proof (induction q arbitrary: n rule: quality_steps.induct)
  case (1 q)
  show ?case
  proof (cases "q \<le> 30")
    case True
    then have "q = 30" using "1.prems"(1) by simp
    then show ?thesis by (simp add: funpow_fixed next_q_def)
  next
    case False
    then have "Suc (quality_steps (next_q q)) \<le> n"
      using "1.prems"(2) by (subst (asm) quality_steps.simps) simp
    then obtain n' where n: "n = Suc n'" and le: "quality_steps (next_q q) \<le> n'"
      by (cases n) simp_all
    have "(next_q ^^ n') (next_q q) = 30"
      using False next_q_ge le by (intro "1.IH") simp_all
    then show ?thesis by (simp add: n funpow_swap1)
  qed
qed

lemma tries_stable:
  assumes "10 \<le> dpi" and "30 \<le> q" and "max (dpi_scalings dpi) (quality_steps (min q 85)) \<le> n"
  shows "tries dpi q n = (10, 30)"
  using assms by (simp add: tries_def dpi_stable q_stable)

lemma stalled_reached:
  "stalled (reached export_len dpi q n) \<longleftrightarrow> 0 < n \<and> tries dpi q n = tries dpi q (n - 1)"
  by (auto simp: stalled_def reached_def prod_eq_iff)

lemma tries_Suc: "tries dpi q (Suc k) = (next_dpi (fst (tries dpi q k)), next_q (snd (tries dpi q k)))"
  by (simp add: tries_def)

lemma tries_const: "tries dpi q (Suc k) = tries dpi q k \<Longrightarrow> tries dpi q (k + j) = tries dpi q k"
proof (induction j)
  case 0
  then show ?case by simp
next
  case (Suc j)
  then have "tries dpi q (k + j) = tries dpi q k" by simp
  then have "tries dpi q (Suc (k + j)) = tries dpi q (Suc k)" by (simp only: tries_Suc)
  then show ?case using Suc.prems by simp
qed

lemma calls_reached: "calls (reached export_len dpi q m) = map (call_at dpi q) [0..<Suc m]"
  by (simp add: reached_def)

lemma call_at_mono:
  assumes "10 \<le> dpi" and "30 \<le> q" and "i \<le> j"
  shows "fst (call_at dpi q j) \<le> fst (call_at dpi q i) \<and> snd (call_at dpi q j) \<le> snd (call_at dpi q i)"
proof -
  have d: "(next_dpi ^^ j) dpi \<le> (next_dpi ^^ i) dpi"
    using next_dpi_ge next_dpi_le assms(1,3) by (rule funpow_antimono)
  have q': "(next_q ^^ j) (min q 85) \<le> (next_q ^^ i) (min q 85)"
    using next_q_ge next_q_le _ assms(3) by (rule funpow_antimono) (use assms(2) in simp_all)
  have "(next_dpi ^^ j) dpi \<le> (next_dpi ^^ 0) dpi"
    using next_dpi_ge next_dpi_le assms(1) by (rule funpow_antimono) simp_all
  then have d0: "(next_dpi ^^ j) dpi \<le> dpi" by simp
  have "(next_q ^^ j) (min q 85) \<le> (next_q ^^ 0) (min q 85)"
    using next_q_ge next_q_le by (rule funpow_antimono) (use assms(2) in simp_all)
  then have q0: "(next_q ^^ j) (min q 85) \<le> q" by simp
  show ?thesis using d q' d0 q0 assms(3) by (auto simp: call_at_def tries_def)
qed

lemma call_at_Suc:
  "call_at dpi q (Suc i) =
     (next_dpi (fst (call_at dpi q i)), next_q (min (snd (call_at dpi q i)) 85))"
proof (cases i)
  case 0
  then show ?thesis by (simp add: call_at_def tries_def)
next
  case (Suc i')
  have "(next_q ^^ i) (min q 85) \<le> 85"
    using next_q_le_85 by (rule funpow_upper) simp_all
  then show ?thesis using Suc by (simp add: call_at_def tries_def)
qed

lemma budget_search_result:
  obtains m where "budget_search export_len dpi q = reached export_len dpi q m"
    and "\<not> over_target (reached export_len dpi q m) \<or> stalled (reached export_len dpi q m)"
    and "\<forall>i < m. over_target (reached export_len dpi q i) \<and> \<not> stalled (reached export_len dpi q i)"
  using budget_loop_reached [where n = 0 and export_len = export_len and dpi = dpi and q = q, OF refl]
  by (auto simp: budget_search_reached)

lemma over_target_reached:
  "over_target (reached export_len dpi q n) = exceeds_target (size_after export_len dpi q n)"
  by (simp add: over_target_def reached_def)

lemma successively_map_upt:
  "(\<And>i. i < m \<Longrightarrow> P (f i) (f (Suc i))) \<Longrightarrow> successively P (map f [0..<Suc m])"
proof (induction m)
  case 0
  then show ?case by simp
next
  case (Suc m)
  then have "successively P (map f [0..<Suc m])" by simp
  moreover have "P (last (map f [0..<Suc m])) (f (Suc m))" using Suc.prems [of m] by simp
  ultimately show ?case
    by (simp add: successively_append_iff del: upt_Suc) (simp add: successively_append_iff)
qed

lemma retries_bounded:
  assumes "10 \<le> dpi" and "30 \<le> q"
    and "\<forall>i < m. \<not> stalled (reached export_len dpi q i)"
  shows "m \<le> max (dpi_scalings dpi) (quality_steps (min q 85)) + 1"
proof (rule ccontr)
  let ?M = "max (dpi_scalings dpi) (quality_steps (min q 85))"
  assume "\<not> m \<le> ?M + 1"
  then have "Suc ?M < m" by simp
  then have "\<not> stalled (reached export_len dpi q (Suc ?M))" using assms(3) by blast
  moreover have "tries dpi q (Suc ?M) = (10, 30)" "tries dpi q ?M = (10, 30)"
    by (rule tries_stable [OF assms(1,2)], linarith)+
  ultimately show False by (simp add: stalled_reached del: funpow.simps)
qed

lemma steps_needed_retries:
  assumes need: "steps_needed export_len dpi q N"
    and stop: "\<not> over_target (reached export_len dpi q m) \<or> stalled (reached export_len dpi q m)"
    and run: "\<forall>i < m. over_target (reached export_len dpi q i) \<and> \<not> stalled (reached export_len dpi q i)"
  shows "m = N"
proof -
  have over: "\<forall>i < N. exceeds_target (size_after export_len dpi q i)"
    and under: "\<not> exceeds_target (size_after export_len dpi q N)"
    using need by (simp_all add: steps_needed_def)
  have "\<not> N < m" using run under by (auto simp: over_target_reached)
  moreover have "\<not> m < N"
  proof
    assume less: "m < N"
    then have "over_target (reached export_len dpi q m)"
      using over by (simp add: over_target_reached)
    then have "stalled (reached export_len dpi q m)" using stop by simp
    then have m0: "0 < m" and eq: "tries dpi q m = tries dpi q (m - 1)"
      by (simp_all add: stalled_reached)
    have "tries dpi q (Suc (m - 1)) = tries dpi q (m - 1)" using m0 eq by simp
    then have "tries dpi q ((m - 1) + (N - (m - 1))) = tries dpi q (m - 1)" by (rule tries_const)
    then have "tries dpi q N = tries dpi q m" using less eq by simp
    then have "size_after export_len dpi q N = size_after export_len dpi q m"
      using m0 less by (simp add: size_after_def call_at_def)
    then show False using under \<open>over_target (reached export_len dpi q m)\<close>
      by (simp add: over_target_reached)
  qed
  ultimately show ?thesis by simp
qed

text \<open>
  C3: starting from a DPI of at least 10 and a quality of at least 30 (the preset is
  220 and 80), the pairs passed to successive export calls never increase in either
  component; each pair follows from the one before by dpi <- max(10, int(dpi * 0.80))
  and quality <- max(30, min(quality, 85) - 10); and when exactly N degrade steps are
  needed to bring the output to the target, export is called N + 1 times.
\<close>

theorem budget_search_monotone:
  assumes "10 \<le> dpi" and "30 \<le> jpg_quality"
  shows "sorted_wrt (\<lambda>(d, q) (d', q'). d' \<le> d \<and> q' \<le> q)
           (calls (budget_search export_len dpi jpg_quality))
       \<and> successively (\<lambda>(d, q) (d', q').
             d' = max 10 (py_int (of_int d * 0.80)) \<and> q' = max 30 (min q 85 - 10))
           (calls (budget_search export_len dpi jpg_quality))
       \<and> (\<forall>N. steps_needed export_len dpi jpg_quality N \<longrightarrow>
             length (calls (budget_search export_len dpi jpg_quality)) = N + 1)"
proof -
  obtain m where r: "budget_search export_len dpi jpg_quality = reached export_len dpi jpg_quality m"
    and stop: "\<not> over_target (reached export_len dpi jpg_quality m)
               \<or> stalled (reached export_len dpi jpg_quality m)"
    and run: "\<forall>i < m. over_target (reached export_len dpi jpg_quality i)
               \<and> \<not> stalled (reached export_len dpi jpg_quality i)"
    by (rule budget_search_result)
  let ?cs = "map (call_at dpi jpg_quality) [0..<Suc m]"
  have c: "calls (budget_search export_len dpi jpg_quality) = ?cs"
    by (simp only: r calls_reached)
  have a: "sorted_wrt (\<lambda>(d, q) (d', q'). d' \<le> d \<and> q' \<le> q) ?cs"
    unfolding sorted_wrt_iff_nth_less
  proof (intro allI impI)
    fix i j assume "i < j" and "j < length ?cs"
    then have "i \<le> j" "?cs ! i = call_at dpi jpg_quality i" "?cs ! j = call_at dpi jpg_quality j"
      by (simp_all add: nth_append del: upt_Suc)
    then show "(case ?cs ! i of (d, q) \<Rightarrow> \<lambda>(d', q'). d' \<le> d \<and> q' \<le> q) (?cs ! j)"
      using call_at_mono [OF assms, of i j] by (simp add: case_prod_unfold)
  qed
  have b: "successively (\<lambda>(d, q) (d', q').
             d' = max 10 (py_int (of_int d * 0.80)) \<and> q' = max 30 (min q 85 - 10)) ?cs"
    by (rule successively_map_upt)
      (simp add: call_at_Suc next_dpi_def next_q_def case_prod_unfold)
  have n: "length ?cs = N + 1" if "steps_needed export_len dpi jpg_quality N" for N
    using steps_needed_retries [OF that stop run] by simp
  show ?thesis unfolding c using a b n by blast
qed

lemma gradescope_preset:
  "map_of QUALITY_PRESETS ''Gradescope (Dynamic, 100MB)'' = Some (220, 0.38, 80)"
  by (simp add: QUALITY_PRESETS_def)

lemma next_dpi_values:
  "next_dpi 220 = 176" "next_dpi 176 = 140" "next_dpi 140 = 112" "next_dpi 112 = 89"
  "next_dpi 89 = 71" "next_dpi 71 = 56" "next_dpi 56 = 44" "next_dpi 44 = 35"
  "next_dpi 35 = 28" "next_dpi 28 = 22" "next_dpi 22 = 17" "next_dpi 17 = 13"
  "next_dpi 13 = 10" "next_dpi 10 = 10"
  by (simp_all add: next_dpi_def py_int_def)

lemma next_q_values:
  "next_q 80 = 70" "next_q 70 = 60" "next_q 60 = 50" "next_q 50 = 40" "next_q 40 = 30"
  "next_q 30 = 30"
  by (simp_all add: next_q_def)

lemma dpi_scalings_220: "dpi_scalings 220 = 13"
  by (simp add: dpi_scalings.simps next_dpi_values)

lemma quality_steps_80: "quality_steps 80 = 5"
  by (simp add: quality_steps.simps next_q_values)

text \<open>
  C2, as the code has it: the search always returns. When it stops, the output is at
  or under the target or the new pair equals the previous pair; the output returned
  is that of the last export call. The number of passes through the loop is at most
  one more than the larger of the number of 0.80-scalings from the base DPI to 10 and
  the number of 10-point steps from the capped quality to 30; for the preset (220, 80)
  that is the number of 0.80-scalings plus one.
\<close>

theorem budget_search_bounded:
  assumes "10 \<le> dpi" and "30 \<le> jpg_quality"
  shows "(\<not> over_target (budget_search export_len dpi jpg_quality)
          \<or> stalled (budget_search export_len dpi jpg_quality))
       \<and> calls (budget_search export_len dpi jpg_quality) \<noteq> []
       \<and> out_bytes (budget_search export_len dpi jpg_quality) =
           (case last (calls (budget_search export_len dpi jpg_quality)) of (d, q) \<Rightarrow> export_len d q)
       \<and> length (calls (budget_search export_len dpi jpg_quality)) - 1
           \<le> max (dpi_scalings dpi) (quality_steps (min jpg_quality 85)) + 1
       \<and> length (calls (budget_search export_len 220 80)) - 1 \<le> dpi_scalings 220 + 1"
proof -
  have bound: "length (calls (budget_search export_len d q)) - 1
                 \<le> max (dpi_scalings d) (quality_steps (min q 85)) + 1
               \<and> (\<not> over_target (budget_search export_len d q)
                    \<or> stalled (budget_search export_len d q))
               \<and> calls (budget_search export_len d q) \<noteq> []
               \<and> out_bytes (budget_search export_len d q) =
                   (case last (calls (budget_search export_len d q)) of (d', q') \<Rightarrow> export_len d' q')"
    if d: "10 \<le> d" and q: "30 \<le> q" for d q
  proof -
    obtain m where r: "budget_search export_len d q = reached export_len d q m"
      and stop: "\<not> over_target (reached export_len d q m) \<or> stalled (reached export_len d q m)"
      and run: "\<forall>i < m. over_target (reached export_len d q i)
                 \<and> \<not> stalled (reached export_len d q i)"
      by (rule budget_search_result)
    have "m \<le> max (dpi_scalings d) (quality_steps (min q 85)) + 1"
      using d q by (rule retries_bounded) (use run in blast)
    moreover have "last (map (call_at d q) [0..<Suc m]) = call_at d q m" by simp
    ultimately show ?thesis
      unfolding r using stop by (simp add: reached_def size_after_def del: upt_Suc)
  qed
  have "length (calls (budget_search export_len 220 80)) - 1
          \<le> max (dpi_scalings 220) (quality_steps (min 80 85)) + 1"
    using bound [of 220 80] by simp
  then have "length (calls (budget_search export_len 220 80)) - 1 \<le> dpi_scalings 220 + 1"
    by (simp add: dpi_scalings_220 quality_steps_80)
  then show ?thesis using bound [OF assms] by simp
qed

lemma budget_search_always_over:
  "calls (budget_search (\<lambda>d q. 100000000 + nat (d * q)) 220 80) =
     [(220, 80), (176, 70), (140, 60), (112, 50), (89, 40), (71, 30), (56, 30), (44, 30),
      (35, 30), (28, 30), (22, 30), (17, 30), (13, 30), (10, 30), (10, 30)]"
  by (simp add: budget_search_def budget_loop.simps over_target_def exceeds_target_def
      stalled_def retry_def next_dpi_values next_q_values Let_def)

theorem budget_search_bounded_witness:
  "(10::int) \<le> 220 \<and> (30::int) \<le> 80
   \<and> stalled (budget_search (\<lambda>d q. 100000000 + nat (d * q)) 220 80)
   \<and> length (calls (budget_search (\<lambda>d q. 100000000 + nat (d * q)) 220 80)) - 1 = 14
   \<and> max (dpi_scalings 220) (quality_steps (min 80 85)) + 1 = 14"
proof -
  have "over_target (budget_search (\<lambda>d q. 100000000 + nat (d * q)) 220 80)"
    by (simp add: budget_search_def budget_loop.simps over_target_def exceeds_target_def
        stalled_def retry_def next_dpi_values next_q_values Let_def)
  then show ?thesis
    using budget_search_bounded [of 220 80 "\<lambda>d q. 100000000 + nat (d * q)"]
    by (simp add: budget_search_always_over dpi_scalings_220 quality_steps_80)
qed

text \<open>
  With every export over the target, the search from (220, 80) makes 14 passes, one
  more than the 13 scalings that take 220 DPI down to 10: the pass that finds the pair
  unchanged exports once more at (10, 30).
\<close>

theorem budget_search_exceeds_scalings:
  "length (calls (budget_search (\<lambda>d q. 100000000 + nat (d * q)) 220 80)) - 1 = 14
   \<and> dpi_scalings 220 = 13
   \<and> \<not> length (calls (budget_search (\<lambda>d q. 100000000 + nat (d * q)) 220 80)) - 1
         \<le> dpi_scalings 220"
  by (simp add: budget_search_always_over dpi_scalings_220)

lemma steps_needed_three: "steps_needed (\<lambda>d q. nat (d * 890000)) 220 80 3"
  by (simp add: steps_needed_def size_after_def call_at_def tries_def exceeds_target_def
      numeral_3_eq_3 All_less_Suc next_dpi_values next_q_values)

lemma budget_search_three_retries:
  "calls (budget_search (\<lambda>d q. nat (d * 890000)) 220 80) =
     [(220, 80), (176, 70), (140, 60), (112, 50)]"
  by (simp add: budget_search_def budget_loop.simps over_target_def exceeds_target_def
      stalled_def retry_def next_dpi_values next_q_values Let_def)

theorem budget_search_monotone_witness:
  "(10::int) \<le> 220 \<and> (30::int) \<le> 80
   \<and> steps_needed (\<lambda>d q. nat (d * 890000)) 220 80 3
   \<and> calls (budget_search (\<lambda>d q. nat (d * 890000)) 220 80) =
       [(220, 80), (176, 70), (140, 60), (112, 50)]
   \<and> length (calls (budget_search (\<lambda>d q. nat (d * 890000)) 220 80)) = 3 + 1
   \<and> sorted_wrt (\<lambda>(d, q) (d', q'). d' \<le> d \<and> q' \<le> q)
       (calls (budget_search (\<lambda>d q. nat (d * 890000)) 220 80))"
  using budget_search_monotone [of 220 80 "\<lambda>d q. nat (d * 890000)"] steps_needed_three
  by (simp add: budget_search_three_retries)

end
